theory Spec2Isabelle
  imports Complex_Main "HOL-Library.Multiset"
begin

section \<open>Lane centre detection: the geometric core of center\_of\_lane\_detection.py\<close>

text \<open>
  The embedding follows \<^verbatim>\<open>src/center_of_lane_detection.py\<close>. Pixel coordinates are
  the numpy int32 entries of the rows returned by \<^verbatim>\<open>cv2.HoughLinesP\<close>. They are
  integers below 2^30 in magnitude, so sums and differences of two coordinates do not leave
  the 32-bit range; the squares of line 106 can leave it, and their wrap-around is written
  out. The floating-point operations of the grouping and classification code are rounded
  to the nearest double.
\<close>

subsection \<open>Errors\<close>

datatype py_error = ZeroDivisionError

subsection \<open>Machine arithmetic\<close>

text \<open>Signed 32-bit wrap-around, as numpy applies it to int32 results.\<close>

definition int32 :: "int \<Rightarrow> int" where
  "int32 v = (v + 2 ^ 31) mod 2 ^ 32 - 2 ^ 31"

text \<open>
  IEEE 754 binary64 rounding: a non-zero real \<open>x\<close> with 2^e \<le> |x| < 2^(e+1) is rounded
  to the nearest multiple of 2^(e-52), ties going to the even multiple. The values of this
  program are far from the limits of the exponent range, which is not modelled.
\<close>

definition pow2 :: "int \<Rightarrow> real" where
  "pow2 k = 2 powr real_of_int k"

definition rne :: "real \<Rightarrow> int" where
  "rne x = (let f = \<lfloor>x\<rfloor>; r = x - of_int f
            in if r < 1 / 2 then f else if 1 / 2 < r then f + 1 else if even f then f else f + 1)"

definition expo :: "real \<Rightarrow> int" where
  "expo x = \<lfloor>log 2 \<bar>x\<bar>\<rfloor>"

definition fl :: "real \<Rightarrow> real" where
  "fl x = (if x = 0 then 0
           else of_int (rne (x / pow2 (expo x - 52))) * pow2 (expo x - 52))"

text \<open>
  A float64 result that may be \<^verbatim>\<open>nan\<close>: \<^verbatim>\<open>np.sqrt\<close> of a negative int32 is
  \<^verbatim>\<open>nan\<close>, and every comparison with \<^verbatim>\<open>nan\<close> is false.
\<close>

datatype float64 = Num real | NaN

definition np_sqrt :: "int \<Rightarrow> float64" where
  "np_sqrt v = (if v < 0 then NaN else Num (fl (sqrt (real_of_int v))))"

fun float64_gt :: "float64 \<Rightarrow> float64 \<Rightarrow> bool" where
  "float64_gt (Num a) (Num b) = (b < a)"
| "float64_gt _ _ = False"

subsection \<open>Data\<close>

text \<open>
  A segment is one row \<^verbatim>\<open>[x1, y1, x2, y2]\<close> of the array of detected lines. The
  classifier stores a tuple \<^verbatim>\<open>(slope_line, line_length, line)\<close> for each segment it
  keeps. The lane centre is returned as a pair whose components are numbers or
  \<^verbatim>\<open>None\<close>.
\<close>

type_synonym segment = "int \<times> int \<times> int \<times> int"
type_synonym point = "int \<times> int"
type_synonym line_info = "real \<times> float64 \<times> segment"
type_synonym lane_center = "real option \<times> real option"

text \<open>
  Of the frame only two things matter to the core: its number of rows
  (\<^verbatim>\<open>image.shape[0]\<close>) and what has been drawn on its pixel buffer. Drawing is done
  by \<^verbatim>\<open>cv2.line\<close>, which writes into the array it is given; the buffer is
  represented by the sequence of line-drawing calls applied to it (every call in this
  program uses the colour (0, 255, 0) and thickness 4).
\<close>

record image =
  rows :: nat
  overlay :: "(point \<times> point) list"

definition cv2_line :: "image \<Rightarrow> point \<Rightarrow> point \<Rightarrow> image" where
  "cv2_line img p1 p2 = img\<lparr>overlay := overlay img @ [(p1, p2)]\<rparr>"

subsection \<open>Python's max and min with a key\<close>

text \<open>
  \<^verbatim>\<open>max(xs, key=k)\<close> keeps the first element whose key is maximal: a later element
  replaces the current best only when its key is strictly greater. \<^verbatim>\<open>min\<close> is the
  mirror image. With \<^verbatim>\<open>default=None\<close> the empty sequence gives \<^verbatim>\<open>None\<close>.
\<close>

fun max_from :: "('a \<Rightarrow> 'k::linorder) \<Rightarrow> 'a \<Rightarrow> 'a list \<Rightarrow> 'a" where
  "max_from key best [] = best"
| "max_from key best (x # xs) = max_from key (if key best < key x then x else best) xs"

fun min_from :: "('a \<Rightarrow> 'k::linorder) \<Rightarrow> 'a \<Rightarrow> 'a list \<Rightarrow> 'a" where
  "min_from key best [] = best"
| "min_from key best (x # xs) = min_from key (if key x < key best then x else best) xs"

text \<open>The same loop for float64 keys, which may be \<^verbatim>\<open>nan\<close>.\<close>

fun max_from_float :: "('a \<Rightarrow> float64) \<Rightarrow> 'a \<Rightarrow> 'a list \<Rightarrow> 'a" where
  "max_from_float key best [] = best"
| "max_from_float key best (x # xs) =
     max_from_float key (if float64_gt (key x) (key best) then x else best) xs"

definition py_max_default :: "('a \<Rightarrow> float64) \<Rightarrow> 'a list \<Rightarrow> 'a option" where
  "py_max_default key xs =
     (case xs of [] \<Rightarrow> None | x # rest \<Rightarrow> Some (max_from_float key x rest))"

text \<open>
  Without a default, \<^verbatim>\<open>max\<close> and \<^verbatim>\<open>min\<close> are only called on sequences that the
  surrounding test has shown to hold at least two elements.
\<close>

definition py_max :: "('a \<Rightarrow> 'k::linorder) \<Rightarrow> 'a list \<Rightarrow> 'a" where
  "py_max key xs = max_from key (hd xs) (tl xs)"

definition py_min :: "('a \<Rightarrow> 'k::linorder) \<Rightarrow> 'a list \<Rightarrow> 'a" where
  "py_min key xs = min_from key (hd xs) (tl xs)"

subsection \<open>group\_lines (lines 35-72)\<close>

definition center_distance :: "segment \<Rightarrow> segment \<Rightarrow> real" where
  "center_distance cur new =
     (case cur of (x1_cur, y1_cur, x2_cur, y2_cur) \<Rightarrow>
      case new of (x1_new, y1_new, x2_new, y2_new) \<Rightarrow>
        let cx_cur = fl (real_of_int (x1_cur + x2_cur) / 2);
            cy_cur = fl (real_of_int (y1_cur + y2_cur) / 2);
            cx_new = fl (real_of_int (x1_new + x2_new) / 2);
            cy_new = fl (real_of_int (y1_new + y2_new) / 2)
        in fl (sqrt (fl (fl ((fl (cx_cur - cx_new))\<^sup>2) + fl ((fl (cy_cur - cy_new))\<^sup>2)))))"

text \<open>
  The loop over \<^verbatim>\<open>lines_sorted[1:]\<close>, with its two variables
  \<^verbatim>\<open>grouped_lines\<close> and \<^verbatim>\<open>current_group\<close>. The slopes are doubles; their
  difference is rounded and compared with the double nearest to 0.3.
\<close>

fun group_loop ::
  "line_info list \<Rightarrow> line_info list list \<Rightarrow> line_info list \<Rightarrow> line_info list list \<times> line_info list"
where
  "group_loop [] grouped_lines current_group = (grouped_lines, current_group)"
| "group_loop (l # ls) grouped_lines current_group =
     (if \<bar>fl (fst l - fst (last current_group))\<bar> < fl (3 / 10) then
        (if center_distance (snd (snd (last current_group))) (snd (snd l)) < 90
         then group_loop ls grouped_lines (current_group @ [l])
         else group_loop ls (grouped_lines @ [current_group]) [l])
      else group_loop ls (grouped_lines @ [current_group]) [l])"

definition group_lines :: "line_info list \<Rightarrow> line_info list list" where
  "group_lines lines =
     (if lines = [] then []
      else let lines_sorted = sort_key fst lines;
               (grouped_lines, current_group) = group_loop (tl lines_sorted) [] [hd lines_sorted]
           in grouped_lines @ [current_group])"

text \<open>
  The grouping rule in the words of the specification: walking along the sorted list, an
  element stays with its predecessor when the two slopes differ by less than 0.3 and the
  two midpoints are less than 90 pixels apart, and opens a new group otherwise. Difference,
  0.3 and distance are the double-precision values the program computes.
\<close>

definition joins :: "line_info \<Rightarrow> line_info \<Rightarrow> bool" where
  "joins prev new \<longleftrightarrow>
     \<bar>fl (fst new - fst prev)\<bar> < fl (3 / 10)
     \<and> center_distance (snd (snd prev)) (snd (snd new)) < 90"

fun chain_groups :: "line_info list \<Rightarrow> line_info list list" where
  "chain_groups [] = []"
| "chain_groups [x] = [[x]]"
| "chain_groups (x # y # rest) =
     (if joins x y
      then (case chain_groups (y # rest) of [] \<Rightarrow> [[x]] | g # gs \<Rightarrow> (x # g) # gs)
      else [x] # chain_groups (y # rest))"

subsection \<open>detect\_lane\_center (lines 74-162)\<close>

text \<open>
  The slope division of line 105. A zero denominator is an error value of the model, so
  that the guard of line 103 can be shown to exclude it.
\<close>

definition true_divide :: "int \<Rightarrow> int \<Rightarrow> py_error + real" where
  "true_divide a b =
     (if b = 0 then Inl ZeroDivisionError else Inr (fl (real_of_int a / real_of_int b)))"

text \<open>
  The classification loop of lines 101-110. The squares and their sum are int32 values;
  \<^verbatim>\<open>np.sqrt\<close> turns the sum into a float64.
\<close>

fun classify_loop ::
  "segment list \<Rightarrow> line_info list \<Rightarrow> line_info list \<Rightarrow> py_error + (line_info list \<times> line_info list)"
where
  "classify_loop [] positive_slopes negative_slopes = Inr (positive_slopes, negative_slopes)"
| "classify_loop ((x1, y1, x2, y2) # rest) positive_slopes negative_slopes =
     (if x2 - x1 = 0 then classify_loop rest positive_slopes negative_slopes
      else
        (case true_divide (y2 - y1) (x2 - x1) of
           Inl e \<Rightarrow> Inl e
         | Inr slope_line \<Rightarrow>
             let line_length = np_sqrt (int32 (int32 ((x2 - x1)\<^sup>2) + int32 ((y2 - y1)\<^sup>2))) in
             if slope_line > 0 then
               classify_loop rest
                 (positive_slopes @ [(slope_line, line_length, (x1, y1, x2, y2))]) negative_slopes
             else if slope_line < 0 then
               classify_loop rest positive_slopes
                 (negative_slopes @ [(slope_line, line_length, (x1, y1, x2, y2))])
             else classify_loop rest positive_slopes negative_slopes))"

text \<open>
  \<^verbatim>\<open>[x for line in lines for x in line[2].reshape(4)[::2]]\<close>: the two x-coordinates of
  every segment of the flattened groups.
\<close>

definition x_coords_of :: "line_info list \<Rightarrow> int list" where
  "x_coords_of lines = concat (map (\<lambda>line. case snd (snd line) of (x1, y1, x2, y2) \<Rightarrow> [x1, x2]) lines)"

text \<open>
  The one-sided branches (lines 117-136); they differ in the sentinel only. Halving an
  integer below 2^53 is exact in double precision, so the two quotients need no rounding;
  the same holds for the midpoint of lines 159-160.
\<close>

definition one_sided :: "image \<Rightarrow> line_info list list \<Rightarrow> real \<Rightarrow> lane_center" where
  "one_sided img groups sentinel =
     (let lines = concat groups;
          x_coords = x_coords_of lines
      in if length x_coords > 1 \<and> py_max id x_coords - py_min id x_coords > 400
         then (Some (real_of_int (py_max id x_coords + py_min id x_coords) / 2),
               Some (real (rows img) / 2))
         else (Some sentinel, Some sentinel))"

text \<open>
  The two drawing loops (lines 139-152): the longest line of each group is drawn on the
  image and its two end points are appended to \<^verbatim>\<open>points\<close>.
\<close>

fun draw_longest :: "line_info list list \<Rightarrow> image \<Rightarrow> point list \<Rightarrow> image \<times> point list" where
  "draw_longest [] img points = (img, points)"
| "draw_longest (grp # groups) img points =
     (case py_max_default (\<lambda>x. fst (snd x)) grp of
        None \<Rightarrow> draw_longest groups img points
      | Some max_line \<Rightarrow>
          (case snd (snd max_line) of (x1, y1, x2, y2) \<Rightarrow>
             draw_longest groups (cv2_line img (x1, y1) (x2, y2)) (points @ [(x1, y1), (x2, y2)])))"

text \<open>Lines 154-162: the centre between the furthest right and furthest left points.\<close>

definition center_of_points :: "point list \<Rightarrow> lane_center" where
  "center_of_points points =
     (if length points < 2 then (None, None)
      else let furthest_points = (py_max fst points, py_min fst points)
           in (Some (real_of_int (fst (fst furthest_points) + fst (snd furthest_points)) / 2),
               Some (real_of_int (snd (fst furthest_points) + snd (snd furthest_points)) / 2)))"

text \<open>
  The function itself. Its second argument is what \<^verbatim>\<open>cv2.HoughLinesP\<close> returned for
  the frame at line 95: \<^verbatim>\<open>None\<close> or the rows of the array. The result is the returned
  pair together with the image as the call leaves it.
\<close>

definition detect_lane_center ::
  "image \<Rightarrow> segment list option \<Rightarrow> py_error + (lane_center \<times> image)" where
  "detect_lane_center img lines =
     (case lines of
        None \<Rightarrow> Inr (center_of_points [], img)
      | Some ls \<Rightarrow>
          (case classify_loop ls [] [] of
             Inl e \<Rightarrow> Inl e
           | Inr (positive_slopes, negative_slopes) \<Rightarrow>
               let positive_groups = group_lines positive_slopes;
                   negative_groups = group_lines negative_slopes
               in if positive_groups = [] \<and> negative_groups \<noteq> [] then
                    Inr (one_sided img negative_groups (- 1), img)
                  else if negative_groups = [] \<and> positive_groups \<noteq> [] then
                    Inr (one_sided img positive_groups 1, img)
                  else
                    let (img1, points1) = draw_longest positive_groups img [];
                        (img2, points2) = draw_longest negative_groups img1 points1
                    in Inr (center_of_points points2, img2)))"

subsection \<open>calculate\_steering\_angle (lines 164-180)\<close>

text \<open>
  \<^verbatim>\<open>deviation = lane_center_x - image_width / 2\<close>,
  \<^verbatim>\<open>steering_angle = deviation / (image_width / 2) * max_steering_angle\<close>.
  The division by \<^verbatim>\<open>image_width / 2\<close> raises when that value is zero.
\<close>

definition calculate_steering_angle :: "real \<Rightarrow> real \<Rightarrow> real \<Rightarrow> py_error + real" where
  "calculate_steering_angle image_width lane_center_x max_steering_angle =
     (let deviation = lane_center_x - image_width / 2
      in if image_width / 2 = 0 then Inl ZeroDivisionError
         else Inr (deviation / (image_width / 2) * max_steering_angle))"

text \<open>
  The definition above reads the two lines in exact arithmetic. The interpreter rounds
  every operation to the nearest double:
\<close>

definition calculate_steering_angle_f64 :: "real \<Rightarrow> real \<Rightarrow> real \<Rightarrow> py_error + real" where
  "calculate_steering_angle_f64 image_width lane_center_x max_steering_angle =
     (let deviation = fl (lane_center_x - fl (image_width / 2))
      in if fl (image_width / 2) = 0 then Inl ZeroDivisionError
         else Inr (fl (fl (deviation / fl (image_width / 2)) * max_steering_angle)))"

subsection \<open>The local variables of detect\_lane\_center\<close>

text \<open>
  To state what a stage does to the data of the stages before it, the same function is
  written as a sequence of steps on its local variables. \<^verbatim>\<open>sorted\<close> and the list
  comprehensions build new lists, \<^verbatim>\<open>points.append\<close> changes \<^verbatim>\<open>points\<close>, and
  \<^verbatim>\<open>cv2.line\<close> changes the image.
\<close>

record locals =
  l_image :: image
  l_lines :: "segment list"
  l_positive_slopes :: "line_info list"
  l_negative_slopes :: "line_info list"
  l_positive_groups :: "line_info list list"
  l_negative_groups :: "line_info list list"
  l_points :: "point list"

definition classify_step :: "locals \<Rightarrow> py_error + locals" where
  "classify_step st =
     (case classify_loop (l_lines st) [] [] of
        Inl e \<Rightarrow> Inl e
      | Inr (positive_slopes, negative_slopes) \<Rightarrow>
          Inr (st\<lparr>l_positive_slopes := positive_slopes, l_negative_slopes := negative_slopes\<rparr>))"

definition group_step :: "locals \<Rightarrow> locals" where
  "group_step st =
     st\<lparr>l_positive_groups := group_lines (l_positive_slopes st),
        l_negative_groups := group_lines (l_negative_slopes st)\<rparr>"

definition draw_step :: "locals \<Rightarrow> locals" where
  "draw_step st =
     (let (img1, points1) = draw_longest (l_positive_groups st) (l_image st) (l_points st);
          (img2, points2) = draw_longest (l_negative_groups st) img1 points1
      in st\<lparr>l_image := img2, l_points := points2\<rparr>)"

text \<open>The returned pair and the local variables at the moment the function returns.\<close>

definition detect_lane_center_locals ::
  "image \<Rightarrow> segment list option \<Rightarrow> py_error + (lane_center \<times> locals)" where
  "detect_lane_center_locals img lines =
     (let st0 = \<lparr>l_image = img, l_lines = [], l_positive_slopes = [], l_negative_slopes = [],
                 l_positive_groups = [], l_negative_groups = [], l_points = []\<rparr>
      in case lines of
           None \<Rightarrow> Inr (center_of_points (l_points st0), st0)
         | Some ls \<Rightarrow>
             (case classify_step (st0\<lparr>l_lines := ls\<rparr>) of
                Inl e \<Rightarrow> Inl e
              | Inr st1 \<Rightarrow>
                  let st2 = group_step st1
                  in if l_positive_groups st2 = [] \<and> l_negative_groups st2 \<noteq> [] then
                       Inr (one_sided (l_image st2) (l_negative_groups st2) (- 1), st2)
                     else if l_negative_groups st2 = [] \<and> l_positive_groups st2 \<noteq> [] then
                       Inr (one_sided (l_image st2) (l_positive_groups st2) 1, st2)
                     else
                       let st3 = draw_step st2
                       in Inr (center_of_points (l_points st3), st3)))"

subsection \<open>Vocabulary of the specification\<close>

text \<open>
  The derived attributes of a segment as the specification names them, and the two slope
  classes. They are used to state what the loops above compute.
\<close>

definition slope_of :: "segment \<Rightarrow> real" where
  "slope_of seg = (case seg of (x1, y1, x2, y2) \<Rightarrow> real_of_int (y2 - y1) / real_of_int (x2 - x1))"

text \<open>The tuple the classifier stores for a segment: rounded slope, computed length, segment.\<close>

definition length_of :: "segment \<Rightarrow> float64" where
  "length_of seg =
     (case seg of (x1, y1, x2, y2) \<Rightarrow> np_sqrt (int32 (int32 ((x2 - x1)\<^sup>2) + int32 ((y2 - y1)\<^sup>2))))"

definition info_of :: "segment \<Rightarrow> line_info" where
  "info_of seg = (fl (slope_of seg), length_of seg, seg)"

text \<open>A segment whose squared length fits a signed 32-bit integer.\<close>

definition fits_int32 :: "segment \<Rightarrow> bool" where
  "fits_int32 seg = (case seg of (x1, y1, x2, y2) \<Rightarrow> (x2 - x1)\<^sup>2 + (y2 - y1)\<^sup>2 < 2 ^ 31)"

definition has_positive_slope :: "segment \<Rightarrow> bool" where
  "has_positive_slope seg = (case seg of (x1, y1, x2, y2) \<Rightarrow> x1 \<noteq> x2 \<and> 0 < slope_of seg)"

definition has_negative_slope :: "segment \<Rightarrow> bool" where
  "has_negative_slope seg = (case seg of (x1, y1, x2, y2) \<Rightarrow> x1 \<noteq> x2 \<and> slope_of seg < 0)"

text \<open>
  The first element, in iteration order, whose key is at least (at most) every key of the
  list.
\<close>

definition first_with_max :: "('a \<Rightarrow> 'k::linorder) \<Rightarrow> 'a list \<Rightarrow> 'a option" where
  "first_with_max key xs = find (\<lambda>r. \<forall>y \<in> set xs. key y \<le> key r) xs"

definition first_with_min :: "('a \<Rightarrow> 'k::linorder) \<Rightarrow> 'a list \<Rightarrow> 'a option" where
  "first_with_min key xs = find (\<lambda>r. \<forall>y \<in> set xs. key r \<le> key y) xs"

fun float64_le :: "float64 \<Rightarrow> float64 \<Rightarrow> bool" where
  "float64_le (Num a) (Num b) = (a \<le> b)"
| "float64_le _ _ = False"

text \<open>The first member of a group whose stored length is at least every stored length.\<close>

definition first_longest :: "line_info list \<Rightarrow> line_info option" where
  "first_longest grp = find (\<lambda>r. \<forall>l \<in> set grp. float64_le (fst (snd l)) (fst (snd r))) grp"

definition end_points :: "line_info \<Rightarrow> point list" where
  "end_points l = (case snd (snd l) of (x1, y1, x2, y2) \<Rightarrow> [(x1, y1), (x2, y2)])"

definition drawn_line :: "line_info \<Rightarrow> point \<times> point" where
  "drawn_line l = (case snd (snd l) of (x1, y1, x2, y2) \<Rightarrow> ((x1, y1), (x2, y2)))"

definition endpoint_xs :: "segment list \<Rightarrow> int set" where
  "endpoint_xs segs = (\<Union>seg \<in> set segs. case seg of (x1, y1, x2, y2) \<Rightarrow> {x1, x2})"

section \<open>Properties\<close>

subsection \<open>Rounding to double\<close>

lemma pow2_pos [simp]: "0 < pow2 k"
  by (simp add: pow2_def)

lemma pow2_nonneg' [simp]: "0 \<le> pow2 k"
  by (simp add: pow2_def)

lemma pow2_nonzero [simp]: "pow2 k \<noteq> 0"
  by (simp add: pow2_def)

lemma pow2_abs [simp]: "\<bar>pow2 k\<bar> = pow2 k"
  by simp

lemma pow2_0 [simp]: "pow2 0 = 1"
  by (simp add: pow2_def)

lemma pow2_add: "pow2 (a + b) = pow2 a * pow2 b"
  by (simp add: pow2_def powr_add)

lemma pow2_diff: "pow2 (a - b) = pow2 a / pow2 b"
  by (simp add: pow2_def powr_diff)

lemma pow2_split: "pow2 a = pow2 b * pow2 (a - b)"
  using pow2_add [of b "a - b"] by simp

lemma pow2_52: "pow2 52 = 2 ^ 52" and pow2_53: "pow2 53 = 2 ^ 53"
  by (simp_all add: pow2_def)

lemma pow2_mono: "a \<le> b \<Longrightarrow> pow2 a \<le> pow2 b"
  by (simp add: pow2_def)

lemma pow2_less_iff: "pow2 a < pow2 b \<longleftrightarrow> a < b"
  by (simp add: pow2_def)

lemma pow2_nat: "pow2 (int n) = 2 ^ n"
  by (simp add: pow2_def powr_realpow)

lemma pow2_nonneg: "0 \<le> k \<Longrightarrow> pow2 k = of_int (2 ^ nat k)"
  using pow2_nat [of "nat k"] by simp

lemma rne_of_int [simp]: "rne (of_int n) = n"
  by (simp add: rne_def)

lemma rne_near:
  assumes "\<bar>r\<bar> < 1 / 2"
  shows "rne (of_int n + r) = n"
proof (cases "0 \<le> r")
  case True
  then have "\<lfloor>of_int n + r\<rfloor> = n" using assms by (intro floor_unique) auto
  then show ?thesis using assms True by (simp add: rne_def)
next
  case False
  then have "\<lfloor>of_int n + r\<rfloor> = n - 1" using assms by (intro floor_unique) auto
  then show ?thesis using assms False by (simp add: rne_def)
qed

lemma rne_lower: "of_int (rne x) \<le> x + 1 / 2"
  unfolding rne_def Let_def by (auto; linarith)

lemma rne_upper: "x - 1 / 2 \<le> of_int (rne x)"
  unfolding rne_def Let_def by (auto; linarith)

lemma rne_ge_floor: "\<lfloor>x\<rfloor> \<le> rne x"
  by (simp add: rne_def Let_def)

lemma rne_le_floor1: "rne x \<le> \<lfloor>x\<rfloor> + 1"
  by (simp add: rne_def Let_def)

lemma rne_mono:
  assumes "x \<le> y"
  shows "rne x \<le> rne y"
proof (cases "\<lfloor>x\<rfloor> < \<lfloor>y\<rfloor>")
  case True
  then have "rne x \<le> \<lfloor>y\<rfloor>" using rne_le_floor1 [of x] by linarith
  then show ?thesis using rne_ge_floor [of y] by linarith
next
  case False
  then have eq: "\<lfloor>x\<rfloor> = \<lfloor>y\<rfloor>" using floor_mono [OF assms] by linarith
  then have "x - of_int \<lfloor>x\<rfloor> \<le> y - of_int \<lfloor>y\<rfloor>" using assms by simp
  then show ?thesis unfolding rne_def Let_def eq by auto
qed

lemma rne_minus: "rne (- x) = - rne x"
proof (cases "x = of_int \<lfloor>x\<rfloor>")
  case True
  then obtain n where "x = of_int n" by metis
  then have "- x = of_int (- n)" by simp
  then show ?thesis using \<open>x = of_int n\<close> by (metis rne_of_int)
next
  case False
  then have lt: "of_int \<lfloor>x\<rfloor> < x" using of_int_floor_le [of x] by linarith
  have "\<lfloor>- x\<rfloor> = - \<lfloor>x\<rfloor> - 1"
    using lt by (intro floor_unique) (auto, linarith)
  then show ?thesis unfolding rne_def Let_def by (auto; linarith)
qed


lemma expo_bounds:
  assumes "x \<noteq> 0"
  shows "pow2 (expo x) \<le> \<bar>x\<bar>" and "\<bar>x\<bar> < pow2 (expo x + 1)"
proof -
  have "0 < \<bar>x\<bar>" using assms by simp
  then have "2 powr real_of_int (expo x) \<le> \<bar>x\<bar> \<and> \<bar>x\<bar> < 2 powr real_of_int (expo x + 1)"
    using floor_log_eq_powr_iff [of "\<bar>x\<bar>" 2 "expo x"] by (simp add: expo_def)
  then show "pow2 (expo x) \<le> \<bar>x\<bar>" and "\<bar>x\<bar> < pow2 (expo x + 1)"
    by (simp_all add: pow2_def)
qed

lemma expo_eqI:
  assumes "pow2 k \<le> \<bar>x\<bar>" and "\<bar>x\<bar> < pow2 (k + 1)"
  shows "expo x = k"
proof -
  have "0 < \<bar>x\<bar>" using assms(1) pow2_pos [of k] by linarith
  then show ?thesis
    using floor_log_eq_powr_iff [of "\<bar>x\<bar>" 2 k] assms by (simp add: expo_def pow2_def)
qed

lemma expo_minus [simp]: "expo (- x) = expo x"
  by (simp add: expo_def)

lemma expo_mono:
  assumes "x \<noteq> 0" and "\<bar>x\<bar> \<le> \<bar>y\<bar>"
  shows "expo x \<le> expo y"
proof -
  have y: "y \<noteq> 0" using assms by auto
  have "pow2 (expo x) < pow2 (expo y + 1)"
    using expo_bounds(1) [OF assms(1)] expo_bounds(2) [OF y] assms(2) by linarith
  then show ?thesis by (simp add: pow2_less_iff)
qed

lemma expo_times_pow2:
  assumes "x \<noteq> 0"
  shows "expo (x * pow2 k) = expo x + k"
proof (rule expo_eqI)
  have "pow2 (expo x) * pow2 k \<le> \<bar>x\<bar> * pow2 k"
    using expo_bounds(1) [OF assms] by (intro mult_right_mono) simp_all
  then show "pow2 (expo x + k) \<le> \<bar>x * pow2 k\<bar>"
    by (simp add: pow2_add abs_mult)
  have "\<bar>x\<bar> * pow2 k < pow2 (expo x + 1) * pow2 k"
    using expo_bounds(2) [OF assms] by (intro mult_strict_right_mono) simp_all
  moreover have "pow2 (expo x + k + 1) = pow2 (expo x + 1) * pow2 k"
    using pow2_add [of "expo x + 1" k] by (simp add: add.commute add.left_commute)
  ultimately show "\<bar>x * pow2 k\<bar> < pow2 (expo x + k + 1)"
    by (simp add: abs_mult)
qed

text \<open>The scaled significand lies in [2^52, 2^53).\<close>

lemma scaled_bounds:
  assumes "0 < x"
  shows "2 ^ 52 \<le> x / pow2 (expo x - 52)" and "x / pow2 (expo x - 52) < 2 ^ 53"
proof -
  have x: "x \<noteq> 0" using assms by simp
  have a: "pow2 (expo x) \<le> x" and b: "x < pow2 (expo x + 1)"
    using expo_bounds [OF x] assms by simp_all
  have "pow2 (expo x) = 2 ^ 52 * pow2 (expo x - 52)"
    using pow2_split [of "expo x" 52] by (simp only: pow2_52)
  then show "2 ^ 52 \<le> x / pow2 (expo x - 52)"
    using a by (simp add: pos_le_divide_eq)
  have "expo x + 1 - 53 = expo x - 52" by simp
  then have "pow2 (expo x + 1) = 2 ^ 53 * pow2 (expo x - 52)"
    using pow2_split [of "expo x + 1" 53] by (simp only: pow2_53)
  then show "x / pow2 (expo x - 52) < 2 ^ 53"
    using b by (simp add: pos_divide_less_eq)
qed

lemma rne_scaled_bounds:
  assumes "0 < x"
  shows "2 ^ 52 \<le> rne (x / pow2 (expo x - 52))" and "rne (x / pow2 (expo x - 52)) \<le> 2 ^ 53"
proof -
  have "rne (of_int (2 ^ 52)) \<le> rne (x / pow2 (expo x - 52))"
    using scaled_bounds(1) [OF assms] by (intro rne_mono) simp
  then show "2 ^ 52 \<le> rne (x / pow2 (expo x - 52))" by (simp only: rne_of_int)
  have "rne (x / pow2 (expo x - 52)) \<le> rne (of_int (2 ^ 53))"
    using scaled_bounds(2) [OF assms] by (intro rne_mono) simp
  then show "rne (x / pow2 (expo x - 52)) \<le> 2 ^ 53" by (simp only: rne_of_int)
qed

lemma fl_0 [simp]: "fl 0 = 0"
  by (simp add: fl_def)

lemma fl_minus: "fl (- x) = - fl x"
  by (simp add: fl_def rne_minus)

lemma fl_pos: "0 < x \<Longrightarrow> 0 < fl x"
  using rne_scaled_bounds(1) [of x] by (simp add: fl_def zero_less_mult_iff)

lemma fl_neg: "x < 0 \<Longrightarrow> fl x < 0"
  using fl_pos [of "- x"] by (simp add: fl_minus)

lemma fl_sign:
  "fl x = 0 \<longleftrightarrow> x = 0" "0 < fl x \<longleftrightarrow> 0 < x" "fl x < 0 \<longleftrightarrow> x < 0"
proof -
  consider "x = 0" | "0 < x" | "x < 0" by linarith
  then have "(fl x = 0 \<longleftrightarrow> x = 0) \<and> (0 < fl x \<longleftrightarrow> 0 < x) \<and> (fl x < 0 \<longleftrightarrow> x < 0)"
  proof cases
    case 1
    then show ?thesis by simp
  next
    case 2
    then have "0 < fl x" by (rule fl_pos)
    with 2 show ?thesis by auto
  next
    case 3
    then have "fl x < 0" by (rule fl_neg)
    with 3 show ?thesis by auto
  qed
  then show "fl x = 0 \<longleftrightarrow> x = 0" "0 < fl x \<longleftrightarrow> 0 < x" "fl x < 0 \<longleftrightarrow> x < 0"
    by blast+
qed

lemma fl_range:
  assumes "0 < x"
  shows "pow2 (expo x) \<le> fl x" and "fl x \<le> pow2 (expo x + 1)"
proof -
  let ?u = "pow2 (expo x - 52)"
  have e1: "pow2 (expo x) = 2 ^ 52 * ?u"
    using pow2_split [of "expo x" 52] by (simp only: pow2_52)
  have "expo x + 1 - 53 = expo x - 52" by simp
  then have e2: "pow2 (expo x + 1) = 2 ^ 53 * ?u"
    using pow2_split [of "expo x + 1" 53] by (simp only: pow2_53)
  have f: "fl x = of_int (rne (x / ?u)) * ?u"
    using assms by (simp add: fl_def)
  have "(2 ^ 52 :: real) \<le> of_int (rne (x / ?u))"
    using rne_scaled_bounds(1) [OF assms] by (metis of_int_le_iff of_int_numeral of_int_power)
  then show "pow2 (expo x) \<le> fl x"
    unfolding e1 f by (intro mult_right_mono) simp_all
  have "of_int (rne (x / ?u)) \<le> (2 ^ 53 :: real)"
    using rne_scaled_bounds(2) [OF assms] by (metis of_int_le_iff of_int_numeral of_int_power)
  then show "fl x \<le> pow2 (expo x + 1)"
    unfolding e2 f by (intro mult_right_mono) simp_all
qed

lemma fl_mono_pos:
  assumes "0 < x" and "x \<le> y"
  shows "fl x \<le> fl y"
proof -
  have y: "0 < y" using assms by linarith
  have le: "expo x \<le> expo y"
    using expo_mono [of x y] assms by simp
  show ?thesis
  proof (cases "expo x = expo y")
    case True
    let ?u = "pow2 (expo y - 52)"
    have "x / ?u \<le> y / ?u" using assms(2) by (intro divide_right_mono) simp_all
    then have "rne (x / ?u) \<le> rne (y / ?u)" by (rule rne_mono)
    then have "of_int (rne (x / ?u)) * ?u \<le> of_int (rne (y / ?u)) * ?u"
      by (intro mult_right_mono) simp_all
    then show ?thesis using assms y True by (simp add: fl_def)
  next
    case False
    then have "expo x + 1 \<le> expo y" using le by linarith
    then have "pow2 (expo x + 1) \<le> pow2 (expo y)" by (rule pow2_mono)
    then show ?thesis
      using fl_range(2) [OF assms(1)] fl_range(1) [OF y] by linarith
  qed
qed

lemma fl_mono:
  assumes "x \<le> y"
  shows "fl x \<le> fl y"
proof -
  consider (pos) "0 < x" | (mid) "x \<le> 0" "0 \<le> y" | (neg) "y < 0"
    using assms by linarith
  then show ?thesis
  proof cases
    case pos
    then show ?thesis using assms by (rule fl_mono_pos)
  next
    case mid
    have "fl x \<le> 0" using mid(1) fl_sign(2) [of x] by linarith
    moreover have "0 \<le> fl y" using mid(2) fl_sign(3) [of y] by linarith
    ultimately show ?thesis by linarith
  next
    case neg
    then have "fl (- y) \<le> fl (- x)" using assms by (intro fl_mono_pos) auto
    then show ?thesis by (simp add: fl_minus)
  qed
qed

text \<open>Exactness: every integer below 2^53 in magnitude, scaled by a power of two, is a double.\<close>

lemma fl_dyadic:
  assumes "\<bar>n\<bar> < 2 ^ 53"
  shows "fl (of_int n * pow2 k) = of_int n * pow2 k"
proof (cases "n = 0")
  case True
  then show ?thesis by simp
next
  case False
  let ?x = "of_int n * pow2 k :: real"
  let ?j = "expo (of_int n)"
  have n0: "(of_int n :: real) \<noteq> 0" using False by simp
  have x0: "?x \<noteq> 0" using False by simp
  have p53: "pow2 53 = 2 ^ 53" by (rule pow2_53)
  have "\<bar>of_int n :: real\<bar> < 2 ^ 53"
    using assms by (metis of_int_abs of_int_less_iff of_int_numeral of_int_power)
  then have "pow2 ?j < pow2 53"
    using expo_bounds(1) [OF n0] p53 by linarith
  then have j: "?j \<le> 52" by (simp add: pow2_less_iff)
  have ex: "expo ?x = ?j + k" by (rule expo_times_pow2 [OF n0])
  have "pow2 k = pow2 (52 - ?j) * pow2 (?j + k - 52)"
    using pow2_add [of "52 - ?j" "?j + k - 52"] by simp
  then have "?x / pow2 (expo ?x - 52) = of_int n * pow2 (52 - ?j)"
    unfolding ex by simp
  also have "\<dots> = of_int (n * 2 ^ nat (52 - ?j))"
    using j by (simp add: pow2_nonneg)
  finally have "rne (?x / pow2 (expo ?x - 52)) = n * 2 ^ nat (52 - ?j)"
    by (simp only: rne_of_int)
  then have "fl ?x = of_int (n * 2 ^ nat (52 - ?j)) * pow2 (expo ?x - 52)"
    using x0 by (simp only: fl_def if_False)
  also have "\<dots> = of_int n * (pow2 (52 - ?j) * pow2 (?j + k - 52))"
    using j unfolding ex by (simp add: pow2_nonneg)
  also have "\<dots> = ?x"
    using pow2_add [of "52 - ?j" "?j + k - 52"] by simp
  finally show ?thesis .
qed

lemma fl_half: "fl (x / 2) = fl x / 2"
proof (cases "x = 0")
  case True
  then show ?thesis by simp
next
  case False
  have h: "pow2 (- 1) = 1 / 2" by (simp add: pow2_def powr_minus_divide)
  have "expo (x * pow2 (- 1)) = expo x + (- 1)" by (rule expo_times_pow2 [OF False])
  then have e: "expo (x / 2) = expo x - 1" by (simp add: h)
  have "pow2 (expo x - 52) = 2 * pow2 (expo x - 1 - 52)"
    using pow2_add [of 1 "expo x - 1 - 52"] pow2_nat [of 1] by simp
  then have u: "pow2 (expo x - 1 - 52) = pow2 (expo x - 52) / 2" by simp
  have "fl (x / 2) = of_int (rne (x / 2 / pow2 (expo x - 1 - 52))) * pow2 (expo x - 1 - 52)"
    using False by (simp add: fl_def e)
  also have "x / 2 / pow2 (expo x - 1 - 52) = x / pow2 (expo x - 52)"
    unfolding u by simp
  also have "of_int (rne (x / pow2 (expo x - 52))) * pow2 (expo x - 1 - 52) = fl x / 2"
    unfolding u using False by (simp add: fl_def)
  finally show ?thesis .
qed

lemma fl_idem: "fl (fl x) = fl x"
proof (cases "x = 0")
  case True
  then show ?thesis by simp
next
  case False
  have "\<bar>rne (x / pow2 (expo x - 52))\<bar> \<le> 2 ^ 53"
  proof (cases "0 < x")
    case True
    then show ?thesis using rne_scaled_bounds [OF True] by simp
  next
    case F: False
    then have p: "0 < - x" using False by simp
    have "rne (x / pow2 (expo x - 52)) = - rne ((- x) / pow2 (expo (- x) - 52))"
      using rne_minus [of "(- x) / pow2 (expo (- x) - 52)"] by simp
    then show ?thesis using rne_scaled_bounds [OF p] by simp
  qed
  then consider "\<bar>rne (x / pow2 (expo x - 52))\<bar> < 2 ^ 53"
    | "rne (x / pow2 (expo x - 52)) = 2 ^ 53" | "rne (x / pow2 (expo x - 52)) = - (2 ^ 53)"
    by linarith
  then show ?thesis
  proof cases
    case 1
    then show ?thesis using False fl_dyadic [OF 1] by (simp add: fl_def)
  next
    case 2
    have "fl (of_int 1 * pow2 (expo x + 1)) = of_int 1 * pow2 (expo x + 1)"
      by (rule fl_dyadic) simp
    moreover have "expo x + 1 - 53 = expo x - 52" by simp
    then have "pow2 (expo x + 1) = 2 ^ 53 * pow2 (expo x - 52)"
      using pow2_split [of "expo x + 1" 53] by (simp only: pow2_53)
    then have "fl x = pow2 (expo x + 1)"
      using False 2 by (simp add: fl_def)
    ultimately show ?thesis by simp
  next
    case 3
    have "fl (of_int (- 1) * pow2 (expo x + 1)) = of_int (- 1) * pow2 (expo x + 1)"
      by (rule fl_dyadic) simp
    moreover have "expo x + 1 - 53 = expo x - 52" by simp
    then have "pow2 (expo x + 1) = 2 ^ 53 * pow2 (expo x - 52)"
      using pow2_split [of "expo x + 1" 53] by (simp only: pow2_53)
    then have "fl x = - pow2 (expo x + 1)"
      using False 3 by (simp add: fl_def)
    ultimately show ?thesis by simp
  qed
qed

text \<open>Evaluation on numerals.\<close>

lemma pow2_numeral [simp]: "pow2 (numeral n) = 2 ^ numeral n"
  by (simp add: pow2_def)

lemma pow2_neg_numeral [simp]: "pow2 (- numeral n) = 1 / 2 ^ numeral n"
  by (simp add: pow2_def powr_minus_divide)

lemma pow2_1 [simp]: "pow2 1 = 2"
  by (simp add: pow2_def)

lemma pow2_neg1 [simp]: "pow2 (- 1) = 1 / 2"
  by (simp add: pow2_def powr_minus_divide)

lemma pow2_not_le0 [simp]: "\<not> pow2 k \<le> 0"
  using pow2_pos [of k] by linarith

lemma pow2_neg_nat: "pow2 (- int j) = 1 / 2 ^ j"
  using pow2_nat [of j] by (simp add: pow2_def powr_minus_divide)

declare fl_minus [simp]

lemma fl_of_int: "\<bar>n\<bar> < 2 ^ 53 \<Longrightarrow> fl (of_int n) = of_int n"
  using fl_dyadic [of n 0] by simp

lemma fl_ratio: "\<bar>n\<bar> < 2 ^ 53 \<Longrightarrow> fl (of_int n / 2 ^ j) = of_int n / 2 ^ j"
  using fl_dyadic [of n "- int j"] by (simp add: pow2_neg_nat)

lemma fl_numeral [simp]:
  assumes "(numeral k :: int) < 2 ^ 53"
  shows "fl (numeral k) = numeral k"
proof -
  have "\<bar>numeral k :: int\<bar> < 2 ^ 53" using assms by (simp only: abs_numeral)
  from fl_of_int [OF this] show ?thesis by (simp only: of_int_numeral)
qed

lemma fl_1 [simp]: "fl 1 = 1"
  using fl_of_int [of 1] by simp

lemma fl_numeral_half [simp]:
  assumes "(numeral k :: int) < 2 ^ 53"
  shows "fl (numeral k / 2) = numeral k / 2"
proof -
  have "\<bar>numeral k :: int\<bar> < 2 ^ 53" using assms by (simp only: abs_numeral)
  from fl_ratio [OF this, of 1] show ?thesis by (simp only: of_int_numeral power_one_right)
qed

lemma fl_numeral_quarter [simp]:
  assumes "(numeral k :: int) < 2 ^ 53"
  shows "fl (numeral k / 4) = numeral k / 4"
proof -
  have "\<bar>numeral k :: int\<bar> < 2 ^ 53" using assms by (simp only: abs_numeral)
  have "(2 :: real) ^ 2 = 4" by simp
  with fl_ratio [OF \<open>\<bar>numeral k :: int\<bar> < 2 ^ 53\<close>, of 2] show ?thesis
    by (simp only: of_int_numeral)
qed

lemma fl_one_half [simp]: "fl (1 / 2) = 1 / 2"
  using fl_ratio [of 1 1] by simp

lemma fl_one_quarter [simp]: "fl (1 / 4) = 1 / 4"
  using fl_ratio [of 1 2] by simp

lemma fl_eval:
  assumes "pow2 k \<le> \<bar>x\<bar>" and "\<bar>x\<bar> < pow2 (k + 1)" and "\<bar>x / pow2 (k - 52) - of_int n\<bar> < 1 / 2"
  shows "fl x = of_int n * pow2 (k - 52)"
proof -
  have e: "expo x = k" using assms(1,2) by (rule expo_eqI)
  have x: "x \<noteq> 0" using assms(1) by auto
  have "rne (of_int n + (x / pow2 (k - 52) - of_int n)) = n"
    using assms(3) by (rule rne_near)
  then have "rne (x / pow2 (k - 52)) = n" by simp
  then show ?thesis using x e by (simp add: fl_def)
qed

lemma fl_three_tenths: "fl (3 / 10) = 5404319552844595 / 18014398509481984"
  using fl_eval [of "- 2" "3 / 10" 5404319552844595] by simp

lemma fl_23_tenths: "fl (23 / 10) = 5179139571476070 / 2251799813685248"
  using fl_eval [of 1 "23 / 10" 5179139571476070] by simp

subsection \<open>Steering angle\<close>


lemma steering_angle_value:
  "image_width \<noteq> 0 \<Longrightarrow>
     calculate_steering_angle image_width c m = Inr ((2 * c - image_width) * m / image_width)"
  by (simp add: calculate_steering_angle_def Let_def field_simps)



text \<open>
  C4 as stated: for every lane centre, positive width and non-negative maximum angle the
  result lies in [-max, +max]. It fails for a lane centre outside the frame, for example
  the sentinel -1 that detect\_lane\_center returns: the angle is -634/9, below -70.
\<close>

theorem steering_angle_range_counterexample:
  "calculate_steering_angle 315 (- 1) 70 = Inr (- 634 / 9) \<and> (- 634 / 9 :: real) < - 70"
  by (simp add: calculate_steering_angle_def Let_def)

text \<open>
  C4 amended: for a positive width, a non-negative maximum angle and a lane centre inside
  the frame (0 \<le> lane\_center\_x \<le> image\_width) the result lies in [-max, +max].
\<close>

theorem steering_angle_range_in_frame:
  assumes "0 < image_width" and "0 \<le> m" and "0 \<le> c" and "c \<le> image_width"
  shows "\<exists>a. calculate_steering_angle image_width c m = Inr a \<and> - m \<le> a \<and> a \<le> m"
proof -
  let ?a = "(2 * c - image_width) * m / image_width"
  have val: "calculate_steering_angle image_width c m = Inr ?a"
    using assms(1) by (simp add: steering_angle_value)
  have up: "(2 * c - image_width) * m \<le> image_width * m"
    using assms by (intro mult_right_mono) auto
  have lo: "- (image_width * m) \<le> (2 * c - image_width) * m"
  proof -
    have "(- image_width) * m \<le> (2 * c - image_width) * m"
      using assms by (intro mult_right_mono) auto
    then show ?thesis by simp
  qed
  have "?a \<le> m"
    using up assms(1) by (simp add: field_simps)
  moreover have "- m \<le> ?a"
    using lo assms(1) by (simp add: field_simps)
  ultimately show ?thesis using val by blast
qed

theorem steering_angle_range_in_frame_witness:
  "\<exists>a. calculate_steering_angle 315 315 70 = Inr a \<and> - 70 \<le> a \<and> a \<le> 70"
  using steering_angle_range_in_frame [of 315 70 315] by simp

lemma f64_value:
  assumes "0 < w" and "fl w = w"
  shows "calculate_steering_angle_f64 w c m = Inr (fl (fl (fl (c - w / 2) / (w / 2)) * m))"
proof -
  have hw: "fl (w / 2) = w / 2" using fl_half [of w] assms(2) by simp
  show ?thesis
    unfolding calculate_steering_angle_f64_def Let_def hw using assms(1) by simp
qed

lemma fl_tiny_below_frame: "fl (1 / 2 ^ 70 - 315 / 2) = - (315 / 2)"
  using fl_eval [of 7 "1 / 2 ^ 70 - 315 / 2" "- 5541538603991040"] by simp

text \<open>
  C10 as stated: for a positive width and maximum angle the angle is strictly increasing
  in the lane centre. With every operation rounded to double, as the interpreter does, the
  lane centres 0 and 2^-70 both give the angle -70 for width 315 and maximum angle 70.
\<close>

theorem steering_angle_strict_counterexample:
  "(0 :: real) < 1 / 2 ^ 70
   \<and> calculate_steering_angle_f64 315 0 70 = Inr (- 70)
   \<and> calculate_steering_angle_f64 315 (1 / 2 ^ 70) 70 = Inr (- 70)"
proof -
  have w: "(0 :: real) < 315" "fl 315 = 315" by simp_all
  have a: "calculate_steering_angle_f64 315 0 70 = Inr (- 70)"
    by (simp add: f64_value [OF w] fl_minus)
  have b: "calculate_steering_angle_f64 315 (1 / 2 ^ 70) 70 = Inr (- 70)"
    unfolding f64_value [OF w] fl_tiny_below_frame by (simp add: fl_minus)
  show ?thesis using a b by simp
qed

text \<open>
  C10 amended. For a positive image width that is a double and a positive maximum angle,
  the angle computed in double precision is increasing in the lane centre (a larger lane
  centre never gives a smaller angle, but two nearby lane centres can give the same one),
  is 0 exactly when the lane centre is image\_width/2, and the angle at image\_width/2 + d
  is the negation of the angle at image\_width/2 - d.
\<close>

theorem steering_angle_f64_monotone_odd:
  assumes "0 < image_width" and "0 < m" and "fl image_width = image_width"
  shows "(\<forall>c1 c2. c1 \<le> c2 \<longrightarrow>
            (\<exists>a1 a2. calculate_steering_angle_f64 image_width c1 m = Inr a1
                   \<and> calculate_steering_angle_f64 image_width c2 m = Inr a2 \<and> a1 \<le> a2))
       \<and> (\<forall>c. calculate_steering_angle_f64 image_width c m = Inr 0 \<longleftrightarrow> c = image_width / 2)
       \<and> (\<forall>d. \<exists>a. calculate_steering_angle_f64 image_width (image_width / 2 + d) m = Inr a
                \<and> calculate_steering_angle_f64 image_width (image_width / 2 - d) m = Inr (- a))"
proof (intro conjI allI impI)
  fix c1 c2 :: real
  assume le: "c1 \<le> c2"
  have h: "0 < image_width / 2" using assms(1) by simp
  have "fl (c1 - image_width / 2) \<le> fl (c2 - image_width / 2)"
    using le by (intro fl_mono) simp
  then have "fl (c1 - image_width / 2) / (image_width / 2) \<le> fl (c2 - image_width / 2) / (image_width / 2)"
    using h by (intro divide_right_mono) simp_all
  then have "fl (fl (c1 - image_width / 2) / (image_width / 2))
               \<le> fl (fl (c2 - image_width / 2) / (image_width / 2))"
    by (rule fl_mono)
  then have "fl (fl (c1 - image_width / 2) / (image_width / 2)) * m
               \<le> fl (fl (c2 - image_width / 2) / (image_width / 2)) * m"
    using assms(2) by (intro mult_right_mono) simp_all
  then have "fl (fl (fl (c1 - image_width / 2) / (image_width / 2)) * m)
               \<le> fl (fl (fl (c2 - image_width / 2) / (image_width / 2)) * m)"
    by (rule fl_mono)
  then show "\<exists>a1 a2. calculate_steering_angle_f64 image_width c1 m = Inr a1
                   \<and> calculate_steering_angle_f64 image_width c2 m = Inr a2 \<and> a1 \<le> a2"
    by (simp add: f64_value [OF assms(1,3)])
next
  fix c :: real
  show "calculate_steering_angle_f64 image_width c m = Inr 0 \<longleftrightarrow> c = image_width / 2"
    using assms(1,2) by (simp add: f64_value [OF assms(1,3)] fl_sign(1))
next
  fix d :: real
  have "calculate_steering_angle_f64 image_width (image_width / 2 + d) m
          = Inr (fl (fl (fl d / (image_width / 2)) * m))"
    by (simp add: f64_value [OF assms(1,3)])
  moreover have "calculate_steering_angle_f64 image_width (image_width / 2 - d) m
          = Inr (- fl (fl (fl d / (image_width / 2)) * m))"
    by (simp add: f64_value [OF assms(1,3)] fl_minus)
  ultimately show "\<exists>a. calculate_steering_angle_f64 image_width (image_width / 2 + d) m = Inr a
          \<and> calculate_steering_angle_f64 image_width (image_width / 2 - d) m = Inr (- a)"
    by blast
qed

theorem steering_angle_f64_monotone_odd_witness:
  "(\<exists>a1 a2. calculate_steering_angle_f64 315 100 70 = Inr a1
           \<and> calculate_steering_angle_f64 315 200 70 = Inr a2 \<and> a1 \<le> a2)
   \<and> (calculate_steering_angle_f64 315 (315 / 2) 70 = Inr 0)
   \<and> (\<exists>a. calculate_steering_angle_f64 315 (315 / 2 + 10) 70 = Inr a
         \<and> calculate_steering_angle_f64 315 (315 / 2 - 10) 70 = Inr (- a))"
proof -
  have h: "(0::real) < 315" "(0::real) < 70" "fl 315 = 315" by simp_all
  have all: "(\<forall>c1 c2. c1 \<le> c2 \<longrightarrow>
            (\<exists>a1 a2. calculate_steering_angle_f64 315 c1 70 = Inr a1
                   \<and> calculate_steering_angle_f64 315 c2 70 = Inr a2 \<and> a1 \<le> a2))
       \<and> (\<forall>c. calculate_steering_angle_f64 315 c 70 = Inr 0 \<longleftrightarrow> c = 315 / 2)
       \<and> (\<forall>d. \<exists>a. calculate_steering_angle_f64 315 (315 / 2 + d) 70 = Inr a
                \<and> calculate_steering_angle_f64 315 (315 / 2 - d) 70 = Inr (- a))"
    by (rule steering_angle_f64_monotone_odd [OF h])
  have "(100::real) \<le> 200" by simp
  with all show ?thesis by blast
qed

lemma f64_spec_examples:
  "calculate_steering_angle_f64 315 157.5 70 = Inr 0"
  "calculate_steering_angle_f64 315 315 70 = Inr 70"
  "calculate_steering_angle_f64 315 0 70 = Inr (- 70)"
proof -
  have w: "(0 :: real) < 315" "fl 315 = 315" by simp_all
  show "calculate_steering_angle_f64 315 157.5 70 = Inr 0"
    "calculate_steering_angle_f64 315 315 70 = Inr 70"
    "calculate_steering_angle_f64 315 0 70 = Inr (- 70)"
    by (simp_all add: f64_value [OF w] fl_minus)
qed

subsection \<open>Grouping\<close>

text \<open>The rounded distance against the threshold 90.\<close>

lemma fl_sqrt_less_90: "x \<le> 8099 \<Longrightarrow> fl (sqrt x) < 90"
proof -
  assume x: "x \<le> 8099"
  have d: "fl (of_int 92159 / 2 ^ 10) = of_int 92159 / 2 ^ 10"
    by (rule fl_ratio) simp
  have "sqrt x \<le> sqrt 8099" using x by simp
  also have "sqrt 8099 \<le> of_int 92159 / 2 ^ 10"
    by (rule real_le_lsqrt) (simp_all add: power2_eq_square)
  finally have "fl (sqrt x) \<le> fl (of_int 92159 / 2 ^ 10)" by (rule fl_mono)
  then show ?thesis unfolding d by simp
qed

lemma fl_sqrt_not_less_90: "8100 \<le> x \<Longrightarrow> \<not> fl (sqrt x) < 90"
proof -
  assume x: "8100 \<le> x"
  have "sqrt 8100 = 90" by (rule real_sqrt_unique) auto
  then have "90 \<le> sqrt x" using x real_sqrt_le_mono [of 8100 x] by simp
  then have "fl 90 \<le> fl (sqrt x)" by (rule fl_mono)
  then show ?thesis by simp
qed

lemma chain_groups_not_Nil: "chain_groups (x # xs) \<noteq> []"
  by (cases xs) (auto split: list.splits)

lemma concat_chain_groups: "concat (chain_groups xs) = xs"
  by (induction xs rule: chain_groups.induct) (auto split: list.splits)

lemma chain_groups_members_nonempty: "[] \<notin> set (chain_groups xs)"
  by (induction xs rule: chain_groups.induct) (auto split: list.splits)

lemma group_loop_chain:
  "current_group \<noteq> [] \<Longrightarrow>
     (case group_loop rest grouped_lines current_group of (g, c) \<Rightarrow> g @ [c]) =
       grouped_lines @
         (case chain_groups (last current_group # rest) of
            [] \<Rightarrow> []
          | g # gs \<Rightarrow> (butlast current_group @ g) # gs)"
proof (induction rest arbitrary: grouped_lines current_group)
  case Nil
  then show ?case by simp
next
  case (Cons l ls)
  obtain g gs where split: "chain_groups (l # ls) = g # gs"
    using chain_groups_not_Nil [of l ls] by (cases "chain_groups (l # ls)") auto
  show ?case
  proof (cases "joins (last current_group) l")
    case True
    then have "(case group_loop (l # ls) grouped_lines current_group of (g, c) \<Rightarrow> g @ [c]) =
               (case group_loop ls grouped_lines (current_group @ [l]) of (g, c) \<Rightarrow> g @ [c])"
      by (simp add: joins_def)
    also have "\<dots> = grouped_lines @ [current_group @ g] @ gs"
      using Cons.IH [of "current_group @ [l]" grouped_lines] split by simp
    finally show ?thesis
      using True split Cons.prems by (simp add: append_butlast_last_id)
  next
    case False
    then have "(case group_loop (l # ls) grouped_lines current_group of (g, c) \<Rightarrow> g @ [c]) =
               (case group_loop ls (grouped_lines @ [current_group]) [l] of (g, c) \<Rightarrow> g @ [c])"
      by (auto simp add: joins_def)
    also have "\<dots> = grouped_lines @ [current_group] @ g # gs"
      using Cons.IH [of "[l]" "grouped_lines @ [current_group]"] split by simp
    finally show ?thesis
      using False split Cons.prems by (simp add: append_butlast_last_id)
  qed
qed

lemma group_lines_chain: "group_lines lines = chain_groups (sort_key fst lines)"
proof (cases "lines = []")
  case True
  then show ?thesis by (simp add: group_lines_def)
next
  case False
  then have "sort_key fst lines \<noteq> []"
    by (metis length_sort length_0_conv)
  then obtain x xs where s: "sort_key fst lines = x # xs"
    by (cases "sort_key fst lines") auto
  have "group_lines lines = (case group_loop xs [] [x] of (g, c) \<Rightarrow> g @ [c])"
    using False s by (simp add: group_lines_def Let_def)
  also have "\<dots> = chain_groups (x # xs)"
    using group_loop_chain [of "[x]" xs "[]"] chain_groups_not_Nil [of x xs]
    by (simp split: list.splits)
  finally show ?thesis using s by simp
qed






text \<open>
  C9. For a non-empty input the concatenation of the returned groups is the input sorted
  ascending by slope: every input element occurs in exactly one group (the groups together
  hold the same multiset), no group is empty, and the slopes ascend along the groups.
\<close>

theorem group_lines_partition:
  assumes "lines \<noteq> []"
  shows "concat (group_lines lines) = sort_key fst lines
       \<and> mset (concat (group_lines lines)) = mset lines
       \<and> group_lines lines \<noteq> []
       \<and> [] \<notin> set (group_lines lines)
       \<and> sorted (map fst (concat (group_lines lines)))"
proof -
  have c: "concat (group_lines lines) = sort_key fst lines"
    by (simp add: group_lines_chain concat_chain_groups)
  have "sort_key fst lines \<noteq> []"
    using assms by (metis length_sort length_0_conv)
  then have ne: "group_lines lines \<noteq> []"
    using c by auto
  have "[] \<notin> set (group_lines lines)"
    by (simp add: group_lines_chain chain_groups_members_nonempty)
  then show ?thesis using c ne by simp
qed

theorem group_lines_partition_witness:
  "concat (group_lines [(3 / 4, Num 5, (67, 71, 147, 131)), (1 / 2, Num 7, (0, 0, 100, 50))])
     = sort_key fst [(3 / 4, Num 5, (67, 71, 147, 131)), (1 / 2, Num 7, (0, 0, 100, 50))]
   \<and> mset (concat (group_lines [(3 / 4, Num 5, (67, 71, 147, 131)), (1 / 2, Num 7, (0, 0, 100, 50))]))
     = mset [(3 / 4, Num 5, (67, 71, 147, 131)), (1 / 2, Num 7, (0, 0, 100, 50))]
   \<and> group_lines [(3 / 4, Num 5, (67, 71, 147, 131)), (1 / 2, Num 7, (0, 0, 100, 50))] \<noteq> []
   \<and> [] \<notin> set (group_lines [(3 / 4, Num 5, (67, 71, 147, 131)), (1 / 2, Num 7, (0, 0, 100, 50))])
   \<and> sorted (map fst (concat (group_lines [(3 / 4, Num 5, (67, 71, 147, 131)), (1 / 2, Num 7, (0, 0, 100, 50))])))"
proof -
  have ne: "[(3 / 4 :: real, Num 5, (67, 71, 147, 131) :: segment), (1 / 2, Num 7, (0, 0, 100, 50))] \<noteq> []"
    by simp
  show ?thesis by (rule group_lines_partition [OF ne])
qed

subsection \<open>Classification, and Python's max and min\<close>

lemma classify_loop_filter:
  "classify_loop ls pos neg =
     Inr (pos @ map info_of (filter has_positive_slope ls),
          neg @ map info_of (filter has_negative_slope ls))"
proof (induction ls arbitrary: pos neg)
  case Nil
  then show ?case by simp
next
  case (Cons seg ls)
  obtain x1 y1 x2 y2 where seg: "seg = (x1, y1, x2, y2)"
    by (cases seg) auto
  show ?case
  proof (cases "x2 - x1 = 0")
    case True
    then show ?thesis
      using Cons.IH seg by (simp add: has_positive_slope_def has_negative_slope_def)
  next
    case False
    then show ?thesis
      using Cons.IH seg
      by (simp add: true_divide_def Let_def has_positive_slope_def has_negative_slope_def
            slope_of_def length_of_def info_of_def fl_sign)
  qed
qed

lemma max_from_split:
  "\<forall>y \<in> set pre. key y < key best \<Longrightarrow> \<forall>y \<in> set mid. key y \<le> key best \<Longrightarrow>
     \<exists>pre' post. pre @ best # mid @ xs = pre' @ max_from key best xs # post
        \<and> (\<forall>y \<in> set pre'. key y < key (max_from key best xs))
        \<and> (\<forall>y \<in> set post. key y \<le> key (max_from key best xs))"
proof (induction xs arbitrary: pre best mid)
  case Nil
  then show ?case by auto
next
  case (Cons x xs)
  show ?case
  proof (cases "key best < key x")
    case True
    have a: "\<forall>y \<in> set (pre @ best # mid). key y < key x"
      using Cons.prems True by auto
    have b: "\<forall>y \<in> set []. key y \<le> key x" by simp
    from Cons.IH [OF a b] show ?thesis using True by simp
  next
    case False
    have b: "\<forall>y \<in> set (mid @ [x]). key y \<le> key best"
      using Cons.prems False by auto
    from Cons.IH [OF Cons.prems(1) b] show ?thesis using False by simp
  qed
qed

lemma min_from_split:
  "\<forall>y \<in> set pre. key best < key y \<Longrightarrow> \<forall>y \<in> set mid. key best \<le> key y \<Longrightarrow>
     \<exists>pre' post. pre @ best # mid @ xs = pre' @ min_from key best xs # post
        \<and> (\<forall>y \<in> set pre'. key (min_from key best xs) < key y)
        \<and> (\<forall>y \<in> set post. key (min_from key best xs) \<le> key y)"
proof (induction xs arbitrary: pre best mid)
  case Nil
  then show ?case by auto
next
  case (Cons x xs)
  show ?case
  proof (cases "key x < key best")
    case True
    have a: "\<forall>y \<in> set (pre @ best # mid). key x < key y"
      using Cons.prems True by auto
    have b: "\<forall>y \<in> set []. key x \<le> key y" by simp
    from Cons.IH [OF a b] show ?thesis using True by simp
  next
    case False
    have b: "\<forall>y \<in> set (mid @ [x]). key best \<le> key y"
      using Cons.prems False by auto
    from Cons.IH [OF Cons.prems(1) b] show ?thesis using False by simp
  qed
qed

lemma find_first_split: "\<forall>y \<in> set pre. \<not> P y \<Longrightarrow> P r \<Longrightarrow> find P (pre @ r # post) = Some r"
  by (induction pre) auto

lemma first_with_max_Cons: "first_with_max key (x # xs) = Some (max_from key x xs)"
proof -
  obtain pre post where s: "x # xs = pre @ max_from key x xs # post"
    and lt: "\<forall>y \<in> set pre. key y < key (max_from key x xs)"
    and le: "\<forall>y \<in> set post. key y \<le> key (max_from key x xs)"
    using max_from_split [of "[]" key x "[]" xs] by auto
  let ?P = "\<lambda>r. \<forall>y \<in> set (pre @ max_from key x xs # post). key y \<le> key r"
  have "\<forall>y \<in> set pre. \<not> ?P y" using lt by auto
  moreover have "?P (max_from key x xs)" using lt le by auto
  ultimately have "find ?P (pre @ max_from key x xs # post) = Some (max_from key x xs)"
    by (rule find_first_split)
  then show ?thesis by (simp add: first_with_max_def s [symmetric])
qed

lemma first_with_min_Cons: "first_with_min key (x # xs) = Some (min_from key x xs)"
proof -
  obtain pre post where s: "x # xs = pre @ min_from key x xs # post"
    and lt: "\<forall>y \<in> set pre. key (min_from key x xs) < key y"
    and le: "\<forall>y \<in> set post. key (min_from key x xs) \<le> key y"
    using min_from_split [of "[]" key x "[]" xs] by auto
  let ?P = "\<lambda>r. \<forall>y \<in> set (pre @ min_from key x xs # post). key r \<le> key y"
  have "\<forall>y \<in> set pre. \<not> ?P y" using lt by auto
  moreover have "?P (min_from key x xs)" using lt le by auto
  ultimately have "find ?P (pre @ min_from key x xs # post) = Some (min_from key x xs)"
    by (rule find_first_split)
  then show ?thesis by (simp add: first_with_min_def s [symmetric])
qed

lemma py_max_first: "xs \<noteq> [] \<Longrightarrow> first_with_max key xs = Some (py_max key xs)"
  by (cases xs) (simp_all add: py_max_def first_with_max_Cons)

lemma py_min_first: "xs \<noteq> [] \<Longrightarrow> first_with_min key xs = Some (py_min key xs)"
  by (cases xs) (simp_all add: py_min_def first_with_min_Cons)

lemma py_max_is_Max: 
  fixes xs :: "int list"
  assumes "xs \<noteq> []" shows "py_max id xs = Max (set xs)"
proof -
  have "find (\<lambda>r. \<forall>y \<in> set xs. y \<le> r) xs = Some (py_max id xs)"
    using py_max_first [OF assms, of id] by (simp add: first_with_max_def)
  then have "py_max id xs \<in> set xs \<and> (\<forall>y \<in> set xs. y \<le> py_max id xs)"
    by (auto simp add: find_Some_iff)
  then show ?thesis by (metis Max_eqI List.finite_set)
qed

lemma py_min_is_Min: 
  fixes xs :: "int list"
  assumes "xs \<noteq> []" shows "py_min id xs = Min (set xs)"
proof -
  have "find (\<lambda>r. \<forall>y \<in> set xs. r \<le> y) xs = Some (py_min id xs)"
    using py_min_first [OF assms, of id] by (simp add: first_with_min_def)
  then have "py_min id xs \<in> set xs \<and> (\<forall>y \<in> set xs. py_min id xs \<le> y)"
    by (auto simp add: find_Some_iff)
  then show ?thesis by (metis Min_eqI List.finite_set)
qed



text \<open>
  C7. The classifier never fails, whatever the raw segments: a segment with x1 \<noteq> x2 and
  slope (y2 - y1)/(x2 - x1) > 0 is placed, with its rounded slope and its length as
  numpy computes it, in the positive list
  and not in the negative one; one with slope < 0 in the negative list and not in the
  positive one; a segment with slope 0 or with x1 = x2 is in neither list. The division is
  only reached with a non-zero denominator, since a zero denominator would make the loop
  return the error value.
\<close>

theorem classify_by_slope_sign:
  "\<exists>positive_slopes negative_slopes.
     classify_loop lines [] [] = Inr (positive_slopes, negative_slopes)
   \<and> positive_slopes = map info_of (filter has_positive_slope lines)
   \<and> negative_slopes = map info_of (filter has_negative_slope lines)
   \<and> (\<forall>(x1, y1, x2, y2) \<in> set lines.
        let seg = (x1, y1, x2, y2);
            slope = real_of_int (y2 - y1) / real_of_int (x2 - x1);
            len = np_sqrt (int32 (int32 ((x2 - x1)\<^sup>2) + int32 ((y2 - y1)\<^sup>2)))
        in (x1 \<noteq> x2 \<and> slope > 0 \<longrightarrow>
              (fl slope, len, seg) \<in> set positive_slopes \<and> seg \<notin> (snd \<circ> snd) ` set negative_slopes)
         \<and> (x1 \<noteq> x2 \<and> slope < 0 \<longrightarrow>
              (fl slope, len, seg) \<in> set negative_slopes \<and> seg \<notin> (snd \<circ> snd) ` set positive_slopes)
         \<and> (x1 = x2 \<or> slope = 0 \<longrightarrow>
              seg \<notin> (snd \<circ> snd) ` set positive_slopes \<and> seg \<notin> (snd \<circ> snd) ` set negative_slopes))"
proof -
  let ?pos = "map info_of (filter has_positive_slope lines)"
  let ?neg = "map info_of (filter has_negative_slope lines)"
  have run: "classify_loop lines [] [] = Inr (?pos, ?neg)"
    by (simp add: classify_loop_filter)
  have segs_pos: "(snd \<circ> snd) ` set ?pos = {s \<in> set lines. has_positive_slope s}"
    by (auto simp add: info_of_def image_iff)
  have segs_neg: "(snd \<circ> snd) ` set ?neg = {s \<in> set lines. has_negative_slope s}"
    by (auto simp add: info_of_def image_iff)
  have each: "\<forall>(x1, y1, x2, y2) \<in> set lines.
        let seg = (x1, y1, x2, y2);
            slope = real_of_int (y2 - y1) / real_of_int (x2 - x1);
            len = np_sqrt (int32 (int32 ((x2 - x1)\<^sup>2) + int32 ((y2 - y1)\<^sup>2)))
        in (x1 \<noteq> x2 \<and> slope > 0 \<longrightarrow>
              (fl slope, len, seg) \<in> set ?pos \<and> seg \<notin> (snd \<circ> snd) ` set ?neg)
         \<and> (x1 \<noteq> x2 \<and> slope < 0 \<longrightarrow>
              (fl slope, len, seg) \<in> set ?neg \<and> seg \<notin> (snd \<circ> snd) ` set ?pos)
         \<and> (x1 = x2 \<or> slope = 0 \<longrightarrow>
              seg \<notin> (snd \<circ> snd) ` set ?pos \<and> seg \<notin> (snd \<circ> snd) ` set ?neg)"
    unfolding segs_pos segs_neg
    by (auto simp add: Let_def has_positive_slope_def has_negative_slope_def slope_of_def
          length_of_def info_of_def image_iff)
  show ?thesis using run each by blast
qed

theorem classify_by_slope_sign_witness:
  "classify_loop [(0, 0, 10, 10), (0, 10, 10, 0), (5, 0, 5, 9), (0, 4, 8, 4)] [] [] =
     Inr ([(1, Num (fl (sqrt 200)), (0, 0, 10, 10))], [(- 1, Num (fl (sqrt 200)), (0, 10, 10, 0))])"
proof -
  have "map info_of (filter has_positive_slope [(0, 0, 10, 10), (0, 10, 10, 0), (5, 0, 5, 9), (0, 4, 8, 4)])
          = [(1, Num (fl (sqrt 200)), (0, 0, 10, 10))]"
    by (simp add: has_positive_slope_def slope_of_def length_of_def info_of_def np_sqrt_def int32_def)
  moreover have "map info_of (filter has_negative_slope [(0, 0, 10, 10), (0, 10, 10, 0), (5, 0, 5, 9), (0, 4, 8, 4)])
          = [(- 1, Num (fl (sqrt 200)), (0, 10, 10, 0))]"
    by (simp add: has_negative_slope_def slope_of_def length_of_def info_of_def np_sqrt_def int32_def)
  ultimately show ?thesis
    using classify_by_slope_sign [of "[(0, 0, 10, 10), (0, 10, 10, 0), (5, 0, 5, 9), (0, 4, 8, 4)]"]
    by auto
qed

subsection \<open>The lane centre\<close>

lemma set_concat_group_lines: "set (concat (group_lines ls)) = set ls"
  by (simp add: group_lines_chain concat_chain_groups)

lemma group_lines_Nil_iff: "group_lines ls = [] \<longleftrightarrow> ls = []"
proof
  assume "group_lines ls = []"
  then have "concat (group_lines ls) = []" by simp
  then have "sort_key fst ls = []" by (simp add: group_lines_chain concat_chain_groups)
  then show "ls = []" by (metis length_sort length_0_conv)
next
  assume "ls = []" then show "group_lines ls = []" by (simp add: group_lines_def)
qed

lemma set_x_coords_of: "set (x_coords_of (map info_of segs)) = endpoint_xs segs"
  by (auto simp add: x_coords_of_def endpoint_xs_def info_of_def)

lemma set_x_coords_of_cong: "set ls = set ls' \<Longrightarrow> set (x_coords_of ls) = set (x_coords_of ls')"
  by (simp add: x_coords_of_def)

lemma length_x_coords_of: "length (x_coords_of ls) = 2 * length ls"
  by (induction ls) (auto simp add: x_coords_of_def split: prod.splits)

lemma one_sided_spread:
  assumes "segs \<noteq> []"
  shows "one_sided img (group_lines (map info_of segs)) sentinel =
           (if Max (endpoint_xs segs) - Min (endpoint_xs segs) > 400
            then (Some (real_of_int (Max (endpoint_xs segs) + Min (endpoint_xs segs)) / 2),
                  Some (real (rows img) / 2))
            else (Some sentinel, Some sentinel))"
proof -
  let ?flat = "concat (group_lines (map info_of segs))"
  let ?xs = "x_coords_of ?flat"
  have "set ?flat = set (map info_of segs)"
    by (rule set_concat_group_lines)
  then have sx: "set ?xs = endpoint_xs segs"
    using set_x_coords_of_cong [of ?flat "map info_of segs"] set_x_coords_of by simp
  have "length ?flat = length segs"
    by (simp add: group_lines_chain concat_chain_groups)
  then have len: "length ?xs > 1"
    using assms by (cases segs) (simp_all add: length_x_coords_of)
  then have ne: "?xs \<noteq> []" by auto
  have "py_max id ?xs = Max (endpoint_xs segs)" "py_min id ?xs = Min (endpoint_xs segs)"
    using py_max_is_Max [OF ne] py_min_is_Min [OF ne] sx by simp_all
  then show ?thesis using len by (simp add: one_sided_def Let_def)
qed

text \<open>The longest member of a group whose lengths are all numbers.\<close>

lemma float64_gt_le: "float64_gt a b \<Longrightarrow> float64_le b a"
  by (cases a; cases b) auto

lemma float64_not_gt: "a \<noteq> NaN \<Longrightarrow> b \<noteq> NaN \<Longrightarrow> \<not> float64_gt a b \<Longrightarrow> float64_le a b"
  by (cases a; cases b) auto

lemma float64_gt_not_le: "float64_gt a b \<Longrightarrow> \<not> float64_le a b"
  by (cases a; cases b) auto

lemma float64_gt_trans: "float64_gt a b \<Longrightarrow> float64_gt b c \<Longrightarrow> float64_gt a c"
  by (cases a; cases b; cases c) auto

lemma float64_gt_le_trans: "float64_gt a b \<Longrightarrow> float64_le c b \<Longrightarrow> float64_gt a c"
  by (cases a; cases b; cases c) auto

lemma float64_le_trans: "float64_le a b \<Longrightarrow> float64_le b c \<Longrightarrow> float64_le a c"
  by (cases a; cases b; cases c) auto

lemma float64_le_refl: "a \<noteq> NaN \<Longrightarrow> float64_le a a"
  by (cases a) auto

lemma max_from_float_mem: "max_from_float key best xs \<in> set (best # xs)"
  by (induction xs arbitrary: best) (auto split: if_splits)

lemma max_from_float_split:
  "\<forall>y \<in> set (best # xs). key y \<noteq> NaN \<Longrightarrow>
   \<forall>y \<in> set pre. float64_gt (key best) (key y) \<Longrightarrow>
   \<forall>y \<in> set mid. float64_le (key y) (key best) \<Longrightarrow>
     \<exists>pre' post. pre @ best # mid @ xs = pre' @ max_from_float key best xs # post
        \<and> (\<forall>y \<in> set pre'. float64_gt (key (max_from_float key best xs)) (key y))
        \<and> (\<forall>y \<in> set post. float64_le (key y) (key (max_from_float key best xs)))"
proof (induction xs arbitrary: pre best mid)
  case Nil
  then show ?case by auto
next
  case (Cons x xs)
  show ?case
  proof (cases "float64_gt (key x) (key best)")
    case True
    have n: "\<forall>y \<in> set (x # xs). key y \<noteq> NaN" using Cons.prems(1) by auto
    have a: "\<forall>y \<in> set (pre @ best # mid). float64_gt (key x) (key y)"
    proof
      fix y assume "y \<in> set (pre @ best # mid)"
      then consider "y \<in> set pre" | "y = best" | "y \<in> set mid" by auto
      then show "float64_gt (key x) (key y)"
      proof cases
        case 1
        then have "float64_gt (key best) (key y)" using Cons.prems(2) by blast
        with True show ?thesis by (rule float64_gt_trans)
      next
        case 2
        then show ?thesis using True by simp
      next
        case 3
        then have "float64_le (key y) (key best)" using Cons.prems(3) by blast
        with True show ?thesis by (rule float64_gt_le_trans)
      qed
    qed
    have b: "\<forall>y \<in> set []. float64_le (key y) (key x)" by simp
    from Cons.IH [OF n a b] show ?thesis using True by simp
  next
    case False
    have n: "\<forall>y \<in> set (best # xs). key y \<noteq> NaN" using Cons.prems(1) by auto
    have "key x \<noteq> NaN" "key best \<noteq> NaN" using Cons.prems(1) by simp_all
    then have "float64_le (key x) (key best)"
      using False by (rule float64_not_gt)
    then have b: "\<forall>y \<in> set (mid @ [x]). float64_le (key y) (key best)"
      using Cons.prems(3) by auto
    from Cons.IH [OF n Cons.prems(2) b] show ?thesis using False by simp
  qed
qed

lemma first_longest_Cons:
  assumes "\<forall>l \<in> set (x # xs). fst (snd l) \<noteq> NaN"
  shows "first_longest (x # xs) = Some (max_from_float (\<lambda>l. fst (snd l)) x xs)"
proof -
  let ?key = "\<lambda>l :: line_info. fst (snd l)"
  let ?r = "max_from_float ?key x xs"
  obtain pre post where s: "x # xs = pre @ ?r # post"
    and gt: "\<forall>y \<in> set pre. float64_gt (?key ?r) (?key y)"
    and le: "\<forall>y \<in> set post. float64_le (?key y) (?key ?r)"
    using max_from_float_split [OF assms, of "[]" "[]"] by auto
  have rn: "?key ?r \<noteq> NaN" using assms max_from_float_mem [of ?key x xs] by blast
  let ?P = "\<lambda>r. \<forall>l \<in> set (pre @ ?r # post). float64_le (?key l) (?key r)"
  have "\<forall>y \<in> set pre. \<not> ?P y"
  proof
    fix y assume y: "y \<in> set pre"
    then have "\<not> float64_le (?key ?r) (?key y)" using gt float64_gt_not_le by blast
    then show "\<not> ?P y" by auto
  qed
  moreover have "?P ?r"
  proof
    fix l assume "l \<in> set (pre @ ?r # post)"
    then consider "l \<in> set pre" | "l = ?r" | "l \<in> set post" by auto
    then show "float64_le (?key l) (?key ?r)"
    proof cases
      case 1
      then show ?thesis using gt float64_gt_le by blast
    next
      case 2
      then show ?thesis using rn by (simp add: float64_le_refl)
    next
      case 3
      then show ?thesis using le by blast
    qed
  qed
  ultimately have "find ?P (pre @ ?r # post) = Some ?r"
    by (rule find_first_split)
  then show ?thesis unfolding first_longest_def s [symmetric] .
qed

lemma draw_longest_reps:
  "[] \<notin> set groups \<Longrightarrow>
     \<exists>reps. list_all2 (\<lambda>g r. r \<in> set g
                \<and> ((\<forall>l \<in> set g. fst (snd l) \<noteq> NaN) \<longrightarrow> first_longest g = Some r)) groups reps
       \<and> draw_longest groups img points =
           (img\<lparr>overlay := overlay img @ map drawn_line reps\<rparr>, points @ concat (map end_points reps))"
proof (induction groups arbitrary: img points)
  case Nil
  then show ?case by simp
next
  case (Cons g gs)
  then obtain x xs where g: "g = x # xs" by (cases g) auto
  let ?r = "max_from_float (\<lambda>l. fst (snd l)) x xs"
  obtain x1 y1 x2 y2 where seg: "snd (snd ?r) = (x1, y1, x2, y2)"
    by (cases "snd (snd ?r)") auto
  have mem: "?r \<in> set g" using max_from_float_mem [of "\<lambda>l. fst (snd l)" x xs] g by simp
  have fl: "(\<forall>l \<in> set g. fst (snd l) \<noteq> NaN) \<longrightarrow> first_longest g = Some ?r"
    using first_longest_Cons [of x xs] g by simp
  have "[] \<notin> set gs" using Cons.prems by auto
  from Cons.IH [OF this, of "cv2_line img (x1, y1) (x2, y2)" "points @ [(x1, y1), (x2, y2)]"]
  obtain reps where r1: "list_all2 (\<lambda>g r. r \<in> set g
                \<and> ((\<forall>l \<in> set g. fst (snd l) \<noteq> NaN) \<longrightarrow> first_longest g = Some r)) gs reps"
    and r2: "draw_longest gs (cv2_line img (x1, y1) (x2, y2)) (points @ [(x1, y1), (x2, y2)]) =
        ((cv2_line img (x1, y1) (x2, y2))\<lparr>overlay := overlay (cv2_line img (x1, y1) (x2, y2)) @ map drawn_line reps\<rparr>,
         (points @ [(x1, y1), (x2, y2)]) @ concat (map end_points reps))"
    by blast
  have "list_all2 (\<lambda>g r. r \<in> set g
                \<and> ((\<forall>l \<in> set g. fst (snd l) \<noteq> NaN) \<longrightarrow> first_longest g = Some r)) (g # gs) (?r # reps)"
    using mem fl r1 by simp
  moreover have "draw_longest (g # gs) img points =
      (img\<lparr>overlay := overlay img @ map drawn_line (?r # reps)\<rparr>,
       points @ concat (map end_points (?r # reps)))"
    using r2 seg by (simp add: g py_max_default_def cv2_line_def drawn_line_def end_points_def)
  ultimately show ?case by blast
qed

lemma length_end_points: "length (concat (map end_points reps)) = 2 * length reps"
  by (induction reps) (auto simp add: end_points_def split: prod.splits)

lemma classified:
  "classify_loop ls [] [] =
     Inr (map info_of (filter has_positive_slope ls), map info_of (filter has_negative_slope ls))"
  by (simp add: classify_loop_filter)

text \<open>Both functions, once the classification is known.\<close>

lemma detect_unfolded:
  "detect_lane_center img (Some ls) =
     (let positive_groups = group_lines (map info_of (filter has_positive_slope ls));
          negative_groups = group_lines (map info_of (filter has_negative_slope ls))
      in if positive_groups = [] \<and> negative_groups \<noteq> [] then
           Inr (one_sided img negative_groups (- 1), img)
         else if negative_groups = [] \<and> positive_groups \<noteq> [] then
           Inr (one_sided img positive_groups 1, img)
         else
           (case draw_longest positive_groups img [] of (img1, points1) \<Rightarrow>
            case draw_longest negative_groups img1 points1 of (img2, points2) \<Rightarrow>
              Inr (center_of_points points2, img2)))"
  by (simp add: detect_lane_center_def classified Let_def)

lemma locals_unfolded:
  "detect_lane_center_locals img (Some ls) =
     (let positive_groups = group_lines (map info_of (filter has_positive_slope ls));
          negative_groups = group_lines (map info_of (filter has_negative_slope ls));
          st2 = \<lparr>l_image = img, l_lines = ls,
                 l_positive_slopes = map info_of (filter has_positive_slope ls),
                 l_negative_slopes = map info_of (filter has_negative_slope ls),
                 l_positive_groups = positive_groups, l_negative_groups = negative_groups,
                 l_points = []\<rparr>
      in if positive_groups = [] \<and> negative_groups \<noteq> [] then
           Inr (one_sided img negative_groups (- 1), st2)
         else if negative_groups = [] \<and> positive_groups \<noteq> [] then
           Inr (one_sided img positive_groups 1, st2)
         else
           (case draw_longest positive_groups img [] of (img1, points1) \<Rightarrow>
            case draw_longest negative_groups img1 points1 of (img2, points2) \<Rightarrow>
              Inr (center_of_points points2, st2\<lparr>l_image := img2, l_points := points2\<rparr>)))"
  by (simp add: detect_lane_center_locals_def classify_step_def group_step_def draw_step_def
        classified Let_def split: prod.splits)

lemma draw_both:
  assumes "[] \<notin> set pg" and "[] \<notin> set ng"
  shows "\<exists>reps img1 points1.
           list_all2 (\<lambda>g r. r \<in> set g
                \<and> ((\<forall>l \<in> set g. fst (snd l) \<noteq> NaN) \<longrightarrow> first_longest g = Some r)) (pg @ ng) reps
         \<and> length reps = length pg + length ng
         \<and> draw_longest pg img [] = (img1, points1)
         \<and> draw_longest ng img1 points1 =
              (img\<lparr>overlay := overlay img @ map drawn_line reps\<rparr>, concat (map end_points reps))"
proof -
  let ?Q = "\<lambda>g r. r \<in> set g \<and> ((\<forall>l \<in> set g. fst (snd l) \<noteq> NaN) \<longrightarrow> first_longest g = Some r)"
  obtain preps where p1: "list_all2 ?Q pg preps"
    and p2: "draw_longest pg img [] =
               (img\<lparr>overlay := overlay img @ map drawn_line preps\<rparr>, [] @ concat (map end_points preps))"
    using draw_longest_reps [OF assms(1), of img "[]"] by blast
  let ?img1 = "img\<lparr>overlay := overlay img @ map drawn_line preps\<rparr>"
  let ?pts1 = "concat (map end_points preps)"
  obtain nreps where n1: "list_all2 ?Q ng nreps"
    and n2: "draw_longest ng ?img1 ?pts1 =
               (?img1\<lparr>overlay := overlay ?img1 @ map drawn_line nreps\<rparr>, ?pts1 @ concat (map end_points nreps))"
    using draw_longest_reps [OF assms(2), of ?img1 ?pts1] by blast
  have all: "list_all2 ?Q (pg @ ng) (preps @ nreps)"
    using p1 n1 by (rule list_all2_appendI)
  have len: "length (preps @ nreps) = length pg + length ng"
    using p1 n1 by (simp add: list_all2_lengthD)
  have p2': "draw_longest pg img [] = (?img1, ?pts1)" using p2 by simp
  have n2': "draw_longest ng ?img1 ?pts1 =
               (img\<lparr>overlay := overlay img @ map drawn_line (preps @ nreps)\<rparr>,
                concat (map end_points (preps @ nreps)))"
    using n2 by simp
  show ?thesis using all len p2' n2' by blast
qed

subsection \<open>The result of detect\_lane\_center\<close>

lemmas run_simps =
  detect_lane_center_def true_divide_def Let_def group_lines_def center_distance_def
  fl_sqrt_less_90 fl_sqrt_not_less_90 fl_three_tenths np_sqrt_def int32_def
  one_sided_def x_coords_of_def py_max_def py_min_def py_max_default_def cv2_line_def
  center_of_points_def

lemmas class_simps = has_positive_slope_def has_negative_slope_def slope_of_def

lemma negative_only_result:
  assumes "filter has_positive_slope ls = []" and "filter has_negative_slope ls \<noteq> []"
  shows "detect_lane_center img (Some ls) =
           Inr (one_sided img (group_lines (map info_of (filter has_negative_slope ls))) (- 1), img)"
  using assms by (simp add: detect_unfolded group_lines_Nil_iff)

lemma positive_only_result:
  assumes "filter has_negative_slope ls = []" and "filter has_positive_slope ls \<noteq> []"
  shows "detect_lane_center img (Some ls) =
           Inr (one_sided img (group_lines (map info_of (filter has_positive_slope ls))) 1, img)"
  using assms by (simp add: detect_unfolded group_lines_Nil_iff)

lemma neither_side_result:
  assumes "filter has_positive_slope ls = []" and "filter has_negative_slope ls = []"
  shows "detect_lane_center img (Some ls) = Inr ((None, None), img)"
  using assms
  by (simp add: detect_unfolded group_lines_def Let_def center_of_points_def)

lemma both_sides_result:
  assumes pos: "filter has_positive_slope ls \<noteq> []" and neg: "filter has_negative_slope ls \<noteq> []"
  shows "\<exists>reps rightmost leftmost.
           list_all2 (\<lambda>g r. r \<in> set g
                \<and> ((\<forall>l \<in> set g. fst (snd l) \<noteq> NaN) \<longrightarrow> first_longest g = Some r))
             (group_lines (map info_of (filter has_positive_slope ls))
              @ group_lines (map info_of (filter has_negative_slope ls))) reps
         \<and> 2 \<le> length reps
         \<and> first_with_max fst (concat (map end_points reps)) = Some rightmost
         \<and> first_with_min fst (concat (map end_points reps)) = Some leftmost
         \<and> detect_lane_center img (Some ls) =
             Inr ((Some (real_of_int (fst rightmost + fst leftmost) / 2),
                   Some (real_of_int (snd rightmost + snd leftmost) / 2)),
                  img\<lparr>overlay := overlay img @ map drawn_line reps\<rparr>)
         \<and> detect_lane_center_locals img (Some ls) =
             Inr ((Some (real_of_int (fst rightmost + fst leftmost) / 2),
                   Some (real_of_int (snd rightmost + snd leftmost) / 2)),
                  \<lparr>l_image = img\<lparr>overlay := overlay img @ map drawn_line reps\<rparr>,
                   l_lines = ls,
                   l_positive_slopes = map info_of (filter has_positive_slope ls),
                   l_negative_slopes = map info_of (filter has_negative_slope ls),
                   l_positive_groups = group_lines (map info_of (filter has_positive_slope ls)),
                   l_negative_groups = group_lines (map info_of (filter has_negative_slope ls)),
                   l_points = concat (map end_points reps)\<rparr>)"
proof -
  let ?pg = "group_lines (map info_of (filter has_positive_slope ls))"
  let ?ng = "group_lines (map info_of (filter has_negative_slope ls))"
  let ?Q = "\<lambda>g r. r \<in> set g \<and> ((\<forall>l \<in> set g. fst (snd l) \<noteq> NaN) \<longrightarrow> first_longest g = Some r)"
  have pg: "?pg \<noteq> []" and ng: "?ng \<noteq> []"
    using pos neg by (simp_all add: group_lines_Nil_iff)
  have pne: "[] \<notin> set ?pg" and nne: "[] \<notin> set ?ng"
    by (simp_all add: group_lines_chain chain_groups_members_nonempty)
  obtain reps img1 points1 where all: "list_all2 ?Q (?pg @ ?ng) reps"
    and len: "length reps = length ?pg + length ?ng"
    and d1: "draw_longest ?pg img [] = (img1, points1)"
    and d2: "draw_longest ?ng img1 points1 =
               (img\<lparr>overlay := overlay img @ map drawn_line reps\<rparr>, concat (map end_points reps))"
    using draw_both [OF pne nne, of img] by blast
  let ?pts = "concat (map end_points reps)"
  have two: "2 \<le> length reps"
    using len pg ng by (cases ?pg; cases ?ng) auto
  have "length ?pts = 2 * length reps" by (rule length_end_points)
  then have nlt: "\<not> length ?pts < 2" using two by linarith
  have ne: "?pts \<noteq> []"
  proof
    assume "?pts = []"
    then have "length ?pts = 0" by (simp only: list.size)
    with nlt show False by linarith
  qed
  have mx: "first_with_max fst ?pts = Some (py_max fst ?pts)"
    by (rule py_max_first [OF ne])
  have mn: "first_with_min fst ?pts = Some (py_min fst ?pts)"
    by (rule py_min_first [OF ne])
  have c: "center_of_points ?pts =
      (Some (real_of_int (fst (py_max fst ?pts) + fst (py_min fst ?pts)) / 2),
       Some (real_of_int (snd (py_max fst ?pts) + snd (py_min fst ?pts)) / 2))"
    using nlt by (simp add: center_of_points_def Let_def)
  have r1: "detect_lane_center img (Some ls) =
          Inr (center_of_points ?pts, img\<lparr>overlay := overlay img @ map drawn_line reps\<rparr>)"
    unfolding detect_unfolded using pg ng
    by (simp only: Let_def d1 d2 prod.case if_False simp_thms)
  have r2: "detect_lane_center_locals img (Some ls) =
          Inr (center_of_points ?pts,
               \<lparr>l_image = img\<lparr>overlay := overlay img @ map drawn_line reps\<rparr>,
                l_lines = ls,
                l_positive_slopes = map info_of (filter has_positive_slope ls),
                l_negative_slopes = map info_of (filter has_negative_slope ls),
                l_positive_groups = ?pg, l_negative_groups = ?ng,
                l_points = ?pts\<rparr>)"
    unfolding locals_unfolded using pg ng
    by (simp add: Let_def d1 d2)
  show ?thesis using all two mx mn r1 r2 unfolding c by blast
qed

lemma int32_id: "- (2 ^ 31) \<le> v \<Longrightarrow> v < 2 ^ 31 \<Longrightarrow> int32 v = v"
  by (simp add: int32_def)

lemma fits_length: "fits_int32 seg \<Longrightarrow> length_of seg \<noteq> NaN"
proof -
  assume f: "fits_int32 seg"
  obtain x1 y1 x2 y2 where seg: "seg = (x1, y1, x2, y2)" by (cases seg) auto
  let ?a = "(x2 - x1)\<^sup>2" and ?b = "(y2 - y1)\<^sup>2"
  have s: "?a + ?b < 2 ^ 31" using f seg by (simp add: fits_int32_def)
  have a0: "0 \<le> ?a" and b0: "0 \<le> ?b" by simp_all
  have "int32 ?a = ?a" using a0 b0 s by (intro int32_id) linarith+
  moreover have "int32 ?b = ?b" using a0 b0 s by (intro int32_id) linarith+
  moreover have "int32 (?a + ?b) = ?a + ?b" using a0 b0 s by (intro int32_id) linarith+
  moreover have "\<not> ?a + ?b < 0" using a0 b0 by linarith
  ultimately have "length_of seg = Num (fl (sqrt (real_of_int (?a + ?b))))"
    by (simp add: length_of_def seg np_sqrt_def)
  then show ?thesis by simp
qed

lemma wrapped_length_is_nan: "length_of (0, 0, 50000, 100) = NaN"
  by (simp add: length_of_def np_sqrt_def int32_def)

lemma nan_is_never_chosen:
  "key x = NaN \<Longrightarrow> max_from_float key best (x # xs) = max_from_float key best xs"
  by simp

lemma float64_gt_nan [simp]: "float64_gt a NaN = False"
  by (cases a) simp_all

lemma nan_first_stays: "key best = NaN \<Longrightarrow> max_from_float key best xs = best"
  by (induction xs) simp_all

lemma groups_without_nan:
  assumes "\<forall>seg \<in> set ls. fits_int32 seg"
    and "g \<in> set (group_lines (map info_of (filter P ls)))" and "l \<in> set g"
  shows "fst (snd l) \<noteq> NaN"
proof -
  have "l \<in> set (concat (group_lines (map info_of (filter P ls))))"
    using assms(2,3) by auto
  then have "l \<in> set (map info_of (filter P ls))"
    by (simp only: set_concat_group_lines)
  then obtain seg where "seg \<in> set ls" "l = info_of seg" by auto
  then show ?thesis using assms(1) fits_length [of seg] by (simp add: info_of_def)
qed

lemma list_all2_map_Some: "list_all2 (\<lambda>g r. f g = Some r) gs rs \<Longrightarrow> map f gs = map Some rs"
  by (induction rule: list_all2_induct) auto

text \<open>
  C1 as stated: its example input, the segments (400,500,300,100) and (0,100,100,500), is
  said to give the lane centre (200, 300). Both segments have slope 4, so there is no
  negative-slope group, the positive-only branch runs, the spread 400 does not exceed 400,
  and the function returns the sentinel (1, 1).
\<close>

theorem both_sides_example_counterexample:
  "has_positive_slope (400, 500, 300, 100) \<and> has_positive_slope (0, 100, 100, 500)
   \<and> detect_lane_center \<lparr>rows = 600, overlay = []\<rparr> (Some [(400, 500, 300, 100), (0, 100, 100, 500)])
       = Inr ((Some 1, Some 1), \<lparr>rows = 600, overlay = []\<rparr>)
   \<and> detect_lane_center \<lparr>rows = 600, overlay = []\<rparr> (Some [(400, 500, 300, 100), (0, 100, 100, 500)])
       \<noteq> Inr ((Some 200, Some 300), \<lparr>rows = 600, overlay = []\<rparr>)"
  by (simp add: run_simps class_simps)

text \<open>
  C1 amended. When both a positive-slope and a negative-slope segment are present, and
  the squared length of every segment fits a signed 32-bit integer (line 106 computes it
  in int32), the function takes from each group (positive groups first) the member with
  the greatest stored length, the first one in the group's order among equals, collects
  the two end points of each of these representatives, and returns the midpoint of the
  first collected point with maximal x and the first collected point with minimal x. For
  the positive-slope segment (400,500,300,100) with the negative-slope segment
  (0,500,100,100) the lane centre is (200, 500); for the example of the claim, which is
  positive-only, it is (1, 1).
\<close>

theorem lane_center_both_sides:
  "(filter has_positive_slope ls \<noteq> [] \<and> filter has_negative_slope ls \<noteq> []
      \<and> (\<forall>seg \<in> set ls. fits_int32 seg) \<longrightarrow>
      (\<exists>reps rightmost leftmost img'.
           map first_longest (group_lines (map info_of (filter has_positive_slope ls))
                              @ group_lines (map info_of (filter has_negative_slope ls))) = map Some reps
         \<and> first_with_max fst (concat (map end_points reps)) = Some rightmost
         \<and> first_with_min fst (concat (map end_points reps)) = Some leftmost
         \<and> detect_lane_center img (Some ls) =
             Inr ((Some (real_of_int (fst rightmost + fst leftmost) / 2),
                   Some (real_of_int (snd rightmost + snd leftmost) / 2)), img')))
   \<and> (\<exists>img'. detect_lane_center img (Some [(400, 500, 300, 100), (0, 500, 100, 100)])
                = Inr ((Some 200, Some 500), img'))
   \<and> (\<exists>img'. detect_lane_center img (Some [(400, 500, 300, 100), (0, 100, 100, 500)])
                = Inr ((Some 1, Some 1), img'))"
proof (intro conjI impI)
  let ?pg = "group_lines (map info_of (filter has_positive_slope ls))"
  let ?ng = "group_lines (map info_of (filter has_negative_slope ls))"
  assume h: "filter has_positive_slope ls \<noteq> [] \<and> filter has_negative_slope ls \<noteq> []
      \<and> (\<forall>seg \<in> set ls. fits_int32 seg)"
  then have pos: "filter has_positive_slope ls \<noteq> []" and neg: "filter has_negative_slope ls \<noteq> []"
    and fits: "\<forall>seg \<in> set ls. fits_int32 seg" by simp_all
  obtain reps rightmost leftmost where
    all: "list_all2 (\<lambda>g r. r \<in> set g
                \<and> ((\<forall>l \<in> set g. fst (snd l) \<noteq> NaN) \<longrightarrow> first_longest g = Some r)) (?pg @ ?ng) reps"
    and mx: "first_with_max fst (concat (map end_points reps)) = Some rightmost"
    and mn: "first_with_min fst (concat (map end_points reps)) = Some leftmost"
    and run: "detect_lane_center img (Some ls) =
             Inr ((Some (real_of_int (fst rightmost + fst leftmost) / 2),
                   Some (real_of_int (snd rightmost + snd leftmost) / 2)),
                  img\<lparr>overlay := overlay img @ map drawn_line reps\<rparr>)"
    using both_sides_result [OF pos neg, of img] by blast
  have "list_all2 (\<lambda>g r. first_longest g = Some r) (?pg @ ?ng) reps"
  proof (rule list.rel_mono_strong [OF all])
    fix g r
    assume g: "g \<in> set (?pg @ ?ng)"
      and q: "r \<in> set g \<and> ((\<forall>l \<in> set g. fst (snd l) \<noteq> NaN) \<longrightarrow> first_longest g = Some r)"
    have "\<forall>l \<in> set g. fst (snd l) \<noteq> NaN"
      using g groups_without_nan [OF fits] by auto
    with q show "first_longest g = Some r" by blast
  qed
  then have "map first_longest (?pg @ ?ng) = map Some reps"
    by (rule list_all2_map_Some)
  with mx mn run show "\<exists>reps rightmost leftmost img'.
           map first_longest (?pg @ ?ng) = map Some reps
         \<and> first_with_max fst (concat (map end_points reps)) = Some rightmost
         \<and> first_with_min fst (concat (map end_points reps)) = Some leftmost
         \<and> detect_lane_center img (Some ls) =
             Inr ((Some (real_of_int (fst rightmost + fst leftmost) / 2),
                   Some (real_of_int (snd rightmost + snd leftmost) / 2)), img')"
    by blast
next
  show "\<exists>img'. detect_lane_center img (Some [(400, 500, 300, 100), (0, 500, 100, 100)])
                = Inr ((Some 200, Some 500), img')"
    by (simp add: run_simps)
next
  show "\<exists>img'. detect_lane_center img (Some [(400, 500, 300, 100), (0, 100, 100, 500)])
                = Inr ((Some 1, Some 1), img')"
    by (simp add: run_simps)
qed

theorem lane_center_both_sides_witness:
  "\<exists>reps rightmost leftmost img'.
       map first_longest
         (group_lines (map info_of (filter has_positive_slope [(400, 500, 300, 100), (0, 500, 100, 100)]))
          @ group_lines (map info_of (filter has_negative_slope [(400, 500, 300, 100), (0, 500, 100, 100)])))
         = map Some reps
     \<and> first_with_max fst (concat (map end_points reps)) = Some rightmost
     \<and> first_with_min fst (concat (map end_points reps)) = Some leftmost
     \<and> detect_lane_center \<lparr>rows = 600, overlay = []\<rparr> (Some [(400, 500, 300, 100), (0, 500, 100, 100)]) =
         Inr ((Some (real_of_int (fst rightmost + fst leftmost) / 2),
               Some (real_of_int (snd rightmost + snd leftmost) / 2)), img')"
proof -
  have h: "filter has_positive_slope [(400, 500, 300, 100), (0, 500, 100, 100)] \<noteq> []
         \<and> filter has_negative_slope [(400, 500, 300, 100), (0, 500, 100, 100)] \<noteq> []
         \<and> (\<forall>seg \<in> set [(400, 500, 300, 100), (0, 500, 100, 100)]. fits_int32 seg)"
    by (simp add: class_simps fits_int32_def)
  show ?thesis
    using lane_center_both_sides [of "[(400, 500, 300, 100), (0, 500, 100, 100)]" "\<lparr>rows = 600, overlay = []\<rparr>"] h
    by blast
qed

text \<open>
  C5. When only negative-slope segments were kept, the function looks at the x-coordinates
  of the end points of all of them (there are at least two): if the largest exceeds the
  smallest by more than 400 it returns ((max + min)/2, image height/2), otherwise the
  sentinel (-1, -1). When only positive-slope segments were kept it does the same with the
  sentinel (1, 1). The image is left as it was. Negative-slope segments spanning x from 0
  to 450 give (225, image height/2).
\<close>

theorem lane_center_one_sided:
  "(filter has_positive_slope ls = [] \<and> filter has_negative_slope ls \<noteq> [] \<longrightarrow>
      1 < length (x_coords_of (concat (group_lines (map info_of (filter has_negative_slope ls)))))
    \<and> detect_lane_center img (Some ls) =
        Inr (if Max (endpoint_xs (filter has_negative_slope ls))
                  - Min (endpoint_xs (filter has_negative_slope ls)) > 400
             then (Some (real_of_int (Max (endpoint_xs (filter has_negative_slope ls))
                                      + Min (endpoint_xs (filter has_negative_slope ls))) / 2),
                   Some (real (rows img) / 2))
             else (Some (- 1), Some (- 1)), img))
   \<and> (filter has_negative_slope ls = [] \<and> filter has_positive_slope ls \<noteq> [] \<longrightarrow>
      1 < length (x_coords_of (concat (group_lines (map info_of (filter has_positive_slope ls)))))
    \<and> detect_lane_center img (Some ls) =
        Inr (if Max (endpoint_xs (filter has_positive_slope ls))
                  - Min (endpoint_xs (filter has_positive_slope ls)) > 400
             then (Some (real_of_int (Max (endpoint_xs (filter has_positive_slope ls))
                                      + Min (endpoint_xs (filter has_positive_slope ls))) / 2),
                   Some (real (rows img) / 2))
             else (Some 1, Some 1), img))
   \<and> detect_lane_center img (Some [(0, 400, 200, 300), (250, 250, 450, 100)])
        = Inr ((Some 225, Some (real (rows img) / 2)), img)"
proof (intro conjI impI)
  assume h: "filter has_positive_slope ls = [] \<and> filter has_negative_slope ls \<noteq> []"
  show "detect_lane_center img (Some ls) =
        Inr (if Max (endpoint_xs (filter has_negative_slope ls))
                  - Min (endpoint_xs (filter has_negative_slope ls)) > 400
             then (Some (real_of_int (Max (endpoint_xs (filter has_negative_slope ls))
                                      + Min (endpoint_xs (filter has_negative_slope ls))) / 2),
                   Some (real (rows img) / 2))
             else (Some (- 1), Some (- 1)), img)"
    using h negative_only_result [of ls img] one_sided_spread [of "filter has_negative_slope ls" img "- 1"]
    by simp
  have "length (concat (group_lines (map info_of (filter has_negative_slope ls))))
          = length (filter has_negative_slope ls)"
    by (simp add: group_lines_chain concat_chain_groups)
  then show "1 < length (x_coords_of (concat (group_lines (map info_of (filter has_negative_slope ls)))))"
    using h by (cases "filter has_negative_slope ls") (simp_all add: length_x_coords_of)
next
  assume h: "filter has_negative_slope ls = [] \<and> filter has_positive_slope ls \<noteq> []"
  show "detect_lane_center img (Some ls) =
        Inr (if Max (endpoint_xs (filter has_positive_slope ls))
                  - Min (endpoint_xs (filter has_positive_slope ls)) > 400
             then (Some (real_of_int (Max (endpoint_xs (filter has_positive_slope ls))
                                      + Min (endpoint_xs (filter has_positive_slope ls))) / 2),
                   Some (real (rows img) / 2))
             else (Some 1, Some 1), img)"
    using h positive_only_result [of ls img] one_sided_spread [of "filter has_positive_slope ls" img 1]
    by simp
  have "length (concat (group_lines (map info_of (filter has_positive_slope ls))))
          = length (filter has_positive_slope ls)"
    by (simp add: group_lines_chain concat_chain_groups)
  then show "1 < length (x_coords_of (concat (group_lines (map info_of (filter has_positive_slope ls)))))"
    using h by (cases "filter has_positive_slope ls") (simp_all add: length_x_coords_of)
next
  show "detect_lane_center img (Some [(0, 400, 200, 300), (250, 250, 450, 100)])
        = Inr ((Some 225, Some (real (rows img) / 2)), img)"
    by (simp add: run_simps)
qed


theorem lane_center_one_sided_witness:
  "detect_lane_center \<lparr>rows = 600, overlay = []\<rparr> (Some [(0, 400, 200, 300), (250, 250, 350, 100)]) =
        Inr (if Max (endpoint_xs (filter has_negative_slope [(0, 400, 200, 300), (250, 250, 350, 100)]))
                  - Min (endpoint_xs (filter has_negative_slope [(0, 400, 200, 300), (250, 250, 350, 100)])) > 400
             then (Some (real_of_int (Max (endpoint_xs (filter has_negative_slope [(0, 400, 200, 300), (250, 250, 350, 100)]))
                                      + Min (endpoint_xs (filter has_negative_slope [(0, 400, 200, 300), (250, 250, 350, 100)]))) / 2),
                   Some (real (rows \<lparr>rows = 600, overlay = []\<rparr>) / 2))
             else (Some (- 1), Some (- 1)), \<lparr>rows = 600, overlay = []\<rparr>)
   \<and> detect_lane_center \<lparr>rows = 600, overlay = []\<rparr> (Some [(0, 100, 200, 300), (250, 250, 450, 400)]) =
        Inr (if Max (endpoint_xs (filter has_positive_slope [(0, 100, 200, 300), (250, 250, 450, 400)]))
                  - Min (endpoint_xs (filter has_positive_slope [(0, 100, 200, 300), (250, 250, 450, 400)])) > 400
             then (Some (real_of_int (Max (endpoint_xs (filter has_positive_slope [(0, 100, 200, 300), (250, 250, 450, 400)]))
                                      + Min (endpoint_xs (filter has_positive_slope [(0, 100, 200, 300), (250, 250, 450, 400)]))) / 2),
                   Some (real (rows \<lparr>rows = 600, overlay = []\<rparr>) / 2))
             else (Some 1, Some 1), \<lparr>rows = 600, overlay = []\<rparr>)"
proof -
  have h1: "filter has_positive_slope [(0, 400, 200, 300), (250, 250, 350, 100)] = []
          \<and> filter has_negative_slope [(0, 400, 200, 300), (250, 250, 350, 100)] \<noteq> []"
    by (simp add: class_simps)
  have h2: "filter has_negative_slope [(0, 100, 200, 300), (250, 250, 450, 400)] = []
          \<and> filter has_positive_slope [(0, 100, 200, 300), (250, 250, 450, 400)] \<noteq> []"
    by (simp add: class_simps)
  show ?thesis
    using lane_center_one_sided [of "[(0, 400, 200, 300), (250, 250, 350, 100)]" "\<lparr>rows = 600, overlay = []\<rparr>"]
          lane_center_one_sided [of "[(0, 100, 200, 300), (250, 250, 450, 400)]" "\<lparr>rows = 600, overlay = []\<rparr>"]
          h1 h2
    by blast
qed

lemma one_sided_numbers:
  assumes "segs \<noteq> []"
  shows "\<exists>x y. one_sided img (group_lines (map info_of segs)) sentinel = (Some x, Some y)"
proof (cases "Max (endpoint_xs segs) - Min (endpoint_xs segs) > 400")
  case True
  then have "one_sided img (group_lines (map info_of segs)) sentinel =
               (Some (real_of_int (Max (endpoint_xs segs) + Min (endpoint_xs segs)) / 2),
                Some (real (rows img) / 2))"
    using one_sided_spread [OF assms, of img sentinel] by simp
  then show ?thesis by blast
next
  case False
  then have "one_sided img (group_lines (map info_of segs)) sentinel = (Some sentinel, Some sentinel)"
    using one_sided_spread [OF assms, of img sentinel] by simp
  then show ?thesis by blast
qed

text \<open>
  C6. Without segments (no array at all, or an empty one), and whenever fewer than two end
  points were collected, the function returns (None, None). This absent outcome is not a
  pair of numbers, so it differs from the sentinels (-1, -1) and (1, 1) and from every
  coordinate pair; the function returns it exactly when no segment survives the
  classification, and a pair of numbers in every other case.
\<close>

theorem lane_center_absent:
  "detect_lane_center img None = Inr ((None, None), img)
   \<and> detect_lane_center img (Some []) = Inr ((None, None), img)
   \<and> (length points < 2 \<longrightarrow> center_of_points points = (None, None))
   \<and> (\<exists>c img'. detect_lane_center img (Some ls) = Inr (c, img')
         \<and> (c = (None, None) \<longleftrightarrow>
              filter has_positive_slope ls = [] \<and> filter has_negative_slope ls = [])
         \<and> (c = (None, None) \<or> (\<exists>x y. c = (Some x, Some y))))
   \<and> (None, None) \<noteq> (Some (- 1 :: real), Some (- 1 :: real))
   \<and> (None, None) \<noteq> (Some (1 :: real), Some (1 :: real))"
proof (intro conjI impI)
  show "detect_lane_center img None = Inr ((None, None), img)"
    by (simp add: detect_lane_center_def center_of_points_def)
  show "detect_lane_center img (Some []) = Inr ((None, None), img)"
    by (simp add: neither_side_result)
  show "(None, None) \<noteq> (Some (- 1 :: real), Some (- 1 :: real))" by simp
  show "(None, None) \<noteq> (Some (1 :: real), Some (1 :: real))" by simp
next
  assume "length points < 2"
  then show "center_of_points points = (None, None)"
    by (simp add: center_of_points_def)
next
  let ?p = "filter has_positive_slope ls" and ?n = "filter has_negative_slope ls"
  consider (neither) "?p = []" "?n = []" | (neg) "?p = []" "?n \<noteq> []"
    | (pos) "?n = []" "?p \<noteq> []" | (both) "?p \<noteq> []" "?n \<noteq> []"
    by blast
  then show "\<exists>c img'. detect_lane_center img (Some ls) = Inr (c, img')
         \<and> (c = (None, None) \<longleftrightarrow> ?p = [] \<and> ?n = [])
         \<and> (c = (None, None) \<or> (\<exists>x y. c = (Some x, Some y)))"
  proof cases
    case neither
    then show ?thesis using neither_side_result [of ls img] by simp
  next
    case neg
    obtain x y where "one_sided img (group_lines (map info_of ?n)) (- 1) = (Some x, Some y)"
      using one_sided_numbers [OF neg(2)] by blast
    then show ?thesis using neg negative_only_result [of ls img] by simp
  next
    case pos
    obtain x y where "one_sided img (group_lines (map info_of ?p)) 1 = (Some x, Some y)"
      using one_sided_numbers [OF pos(2)] by blast
    then show ?thesis using pos positive_only_result [of ls img] by simp
  next
    case both
    obtain c img' where "detect_lane_center img (Some ls) = Inr (c, img')" "\<exists>x y. c = (Some x, Some y)"
      using both_sides_result [OF both, of img] by blast
    then show ?thesis using both by auto
  qed
qed

theorem lane_center_absent_witness:
  "center_of_points [(3, 4)] = (None, None)
   \<and> detect_lane_center \<lparr>rows = 600, overlay = []\<rparr> (Some [(5, 0, 5, 9), (0, 4, 8, 4)])
        = Inr ((None, None), \<lparr>rows = 600, overlay = []\<rparr>)"
proof -
  have len: "length [(3, 4) :: point] < 2" by simp
  have none: "filter has_positive_slope [(5, 0, 5, 9), (0, 4, 8, 4)] = []
            \<and> filter has_negative_slope [(5, 0, 5, 9), (0, 4, 8, 4)] = []"
    by (simp add: class_simps)
  have img: "detect_lane_center \<lparr>rows = 600, overlay = []\<rparr> (Some [(5, 0, 5, 9), (0, 4, 8, 4)]) = Inr (c, img')
               \<Longrightarrow> img' = \<lparr>rows = 600, overlay = []\<rparr>" for c img'
    using neither_side_result [of "[(5, 0, 5, 9), (0, 4, 8, 4)]" "\<lparr>rows = 600, overlay = []\<rparr>"] none
    by simp
  show ?thesis
    using lane_center_absent [of "\<lparr>rows = 600, overlay = []\<rparr>" "[(3, 4)]" "[(5, 0, 5, 9), (0, 4, 8, 4)]"]
          len none img
    by auto
qed

subsection \<open>The image and the local variables\<close>

text \<open>
  C8 as stated: detect\_lane\_center leaves its input image unchanged. With one
  positive-slope and one negative-slope segment it draws both of them on the image it was
  given (lines 143 and 150), so the image after the call is not the image before it.
\<close>

theorem image_unchanged_counterexample:
  "detect_lane_center \<lparr>rows = 600, overlay = []\<rparr> (Some [(400, 500, 300, 100), (0, 500, 100, 100)])
     = Inr ((Some 200, Some 500),
            \<lparr>rows = 600, overlay = [((400, 500), (300, 100)), ((0, 500), (100, 100))]\<rparr>)
   \<and> \<lparr>rows = 600, overlay = [((400, 500), (300, 100)), ((0, 500), (100, 100 :: int))]\<rparr>
       \<noteq> \<lparr>rows = 600, overlay = []\<rparr>"
  by (simp add: run_simps)

text \<open>
  C8 amended. detect\_lane\_center always returns. No step changes the segment
  collections produced before it: when the function returns, the raw segments, the two
  classified lists and the two lists of groups are exactly what the classifier and
  group\_lines produced. The image keeps its shape, and it is left untouched when there
  are no segments or when at most one slope sign is present. When both slope signs are
  present the function draws one segment of every group onto its input image, positive
  groups first, and the image is thereby modified.
\<close>

theorem stage_effects:
  "\<exists>c st. detect_lane_center_locals img lines = Inr (c, st)
     \<and> detect_lane_center img lines = Inr (c, l_image st)
     \<and> rows (l_image st) = rows img
     \<and> (case lines of
          None \<Rightarrow> l_image st = img
        | Some ls \<Rightarrow>
            l_lines st = ls
          \<and> classify_loop ls [] [] = Inr (l_positive_slopes st, l_negative_slopes st)
          \<and> l_positive_groups st = group_lines (l_positive_slopes st)
          \<and> l_negative_groups st = group_lines (l_negative_slopes st)
          \<and> (if filter has_positive_slope ls \<noteq> [] \<and> filter has_negative_slope ls \<noteq> []
              then (\<exists>reps.
                      list_all2 (\<lambda>g r. r \<in> set g) (l_positive_groups st @ l_negative_groups st) reps
                    \<and> l_image st = img\<lparr>overlay := overlay img @ map drawn_line reps\<rparr>
                    \<and> l_image st \<noteq> img)
              else l_image st = img))"
proof (cases lines)
  case None
  then show ?thesis
    by (simp add: detect_lane_center_locals_def detect_lane_center_def Let_def)
next
  case (Some ls)
  let ?p = "filter has_positive_slope ls" and ?n = "filter has_negative_slope ls"
  consider (neither) "?p = []" "?n = []" | (neg) "?p = []" "?n \<noteq> []"
    | (pos) "?n = []" "?p \<noteq> []" | (both) "?p \<noteq> []" "?n \<noteq> []"
    by blast
  then show ?thesis
  proof cases
    case neither
    then show ?thesis
      using Some
      by (simp add: locals_unfolded detect_unfolded classified group_lines_def Let_def)
  next
    case neg
    then show ?thesis
      using Some
      by (simp add: locals_unfolded detect_unfolded classified group_lines_Nil_iff Let_def)
  next
    case pos
    then show ?thesis
      using Some
      by (simp add: locals_unfolded detect_unfolded classified group_lines_Nil_iff Let_def)
  next
    case both
    let ?pg = "group_lines (map info_of ?p)" and ?ng = "group_lines (map info_of ?n)"
    obtain reps c where
      all: "list_all2 (\<lambda>g r. r \<in> set g
                \<and> ((\<forall>l \<in> set g. fst (snd l) \<noteq> NaN) \<longrightarrow> first_longest g = Some r)) (?pg @ ?ng) reps"
      and two: "2 \<le> length reps"
      and run: "detect_lane_center img (Some ls) = Inr (c, img\<lparr>overlay := overlay img @ map drawn_line reps\<rparr>)"
      and loc: "detect_lane_center_locals img (Some ls) =
             Inr (c, \<lparr>l_image = img\<lparr>overlay := overlay img @ map drawn_line reps\<rparr>,
                   l_lines = ls,
                   l_positive_slopes = map info_of ?p,
                   l_negative_slopes = map info_of ?n,
                   l_positive_groups = ?pg,
                   l_negative_groups = ?ng,
                   l_points = concat (map end_points reps)\<rparr>)"
      using both_sides_result [OF both, of img] by blast
    have mem: "list_all2 (\<lambda>g r. r \<in> set g) (?pg @ ?ng) reps"
      by (rule list.rel_mono_strong [OF all]) blast
    have "overlay (img\<lparr>overlay := overlay img @ map drawn_line reps\<rparr>) \<noteq> overlay img"
      using two by auto
    then have ch: "img\<lparr>overlay := overlay img @ map drawn_line reps\<rparr> \<noteq> img"
      by metis
    show ?thesis
      unfolding Some loc run using both mem ch
      by (simp add: classified) blast
  qed
qed

theorem stage_effects_witness:
  "\<exists>c st. detect_lane_center_locals \<lparr>rows = 600, overlay = []\<rparr>
              (Some [(400, 500, 300, 100), (0, 500, 100, 100)]) = Inr (c, st)
     \<and> l_lines st = [(400, 500, 300, 100), (0, 500, 100, 100)]
     \<and> l_positive_groups st = group_lines (l_positive_slopes st)
     \<and> l_negative_groups st = group_lines (l_negative_slopes st)
     \<and> rows (l_image st) = 600 \<and> l_image st \<noteq> \<lparr>rows = 600, overlay = []\<rparr>"
proof -
  have h: "filter has_positive_slope [(400, 500, 300, 100), (0, 500, 100, 100)] \<noteq> []
         \<and> filter has_negative_slope [(400, 500, 300, 100), (0, 500, 100, 100)] \<noteq> []"
    by (simp add: class_simps)
  obtain c st where
    run: "detect_lane_center_locals \<lparr>rows = 600, overlay = []\<rparr>
            (Some [(400, 500, 300, 100), (0, 500, 100, 100)]) = Inr (c, st)"
    and sh: "rows (l_image st) = rows \<lparr>rows = 600, overlay = []\<rparr>"
    and eff: "(case Some [(400, 500, 300, 100), (0, 500, 100, 100)] of
          None \<Rightarrow> l_image st = \<lparr>rows = 600, overlay = []\<rparr>
        | Some ls \<Rightarrow>
            l_lines st = ls
          \<and> classify_loop ls [] [] = Inr (l_positive_slopes st, l_negative_slopes st)
          \<and> l_positive_groups st = group_lines (l_positive_slopes st)
          \<and> l_negative_groups st = group_lines (l_negative_slopes st)
          \<and> (if filter has_positive_slope ls \<noteq> [] \<and> filter has_negative_slope ls \<noteq> []
              then (\<exists>reps.
                      list_all2 (\<lambda>g r. r \<in> set g) (l_positive_groups st @ l_negative_groups st) reps
                    \<and> l_image st = \<lparr>rows = 600, overlay = []\<rparr>\<lparr>overlay := overlay \<lparr>rows = 600, overlay = []\<rparr> @ map drawn_line reps\<rparr>
                    \<and> l_image st \<noteq> \<lparr>rows = 600, overlay = []\<rparr>)
              else l_image st = \<lparr>rows = 600, overlay = []\<rparr>))"
    using stage_effects [of "\<lparr>rows = 600, overlay = []\<rparr>" "Some [(400, 500, 300, 100), (0, 500, 100, 100)]"]
    by blast
  from eff h have
    "l_lines st = [(400, 500, 300, 100), (0, 500, 100, 100)]
     \<and> l_positive_groups st = group_lines (l_positive_slopes st)
     \<and> l_negative_groups st = group_lines (l_negative_slopes st)
     \<and> l_image st \<noteq> \<lparr>rows = 600, overlay = []\<rparr>"
    by (simp only: option.case if_True simp_thms) blast
  with run sh show ?thesis by auto
qed

text \<open>
  The segments (0,0,100,200) and (0,0,100,230) have slopes 2 and 2.3. In doubles 2.3 is
  slightly below 23/10, the difference 0.2999999999999998 is below the double 0.3, and
  the two segments share a group, whose longest member is the second one.
\<close>

lemma fl_difference_of_slopes:
  "fl (337769972052787 / 1125899906842624) = 337769972052787 / 1125899906842624"
proof -
  have "fl (of_int 337769972052787 / 2 ^ 50) = of_int 337769972052787 / 2 ^ 50"
    by (rule fl_ratio) simp
  then show ?thesis by simp
qed

lemma fl_sqrt_lengths: "fl (sqrt 50000) < fl (sqrt 62900)"
proof -
  have "sqrt 50000 \<le> 224" by (rule real_le_lsqrt) simp_all
  then have "fl (sqrt 50000) \<le> fl 224" by (rule fl_mono)
  moreover have "250 \<le> sqrt 62900" by (rule real_le_rsqrt) simp
  then have "fl 250 \<le> fl (sqrt 62900)" by (rule fl_mono)
  ultimately show ?thesis by simp
qed

lemma slopes_2_and_2_3_share_a_group:
  "detect_lane_center \<lparr>rows = 600, overlay = []\<rparr>
     (Some [(0, 0, 100, 200), (0, 0, 100, 230), (20, 90, 80, 30)])
   = Inr ((Some 50, Some 115),
          \<lparr>rows = 600, overlay = [((0, 0), (100, 230)), ((20, 90), (80, 30))]\<rparr>)"
  by (simp add: run_simps fl_23_tenths fl_difference_of_slopes fl_sqrt_lengths)

end
